theory Spec2Isabelle
  imports Main "HOL-Library.Word"
begin

section \<open>Event model (accessible/base/EventQueue.cpp)\<close>

text \<open>
  Pointers to accessibles are natural numbers, \<open>0\<close> being \<open>nullptr\<close>. Queue positions
  are \<open>uint32_t\<close>, as in the source, so the backward scans wrap below zero.
\<close>

type_synonym uint32 = "32 word"
type_synonym LocalAccessible = nat

datatype EventType =
    EVENT_FOCUS | EVENT_REORDER | EVENT_INNER_REORDER
  | EVENT_NAME_CHANGE | EVENT_DESCRIPTION_CHANGE
  | EVENT_TEXT_INSERTED | EVENT_TEXT_REMOVED | EVENT_TEXT_SELECTION_CHANGED
  | EVENT_SELECTION | EVENT_SELECTION_ADD | EVENT_SELECTION_REMOVE
  | EVENT_SELECTION_WITHIN | EVENT_STATE_CHANGE | EVENT_OTHER nat

datatype EEventRule =
    eAllowDupes | eCoalesceReorder | eCoalesceOfSameType
  | eCoalesceSelectionChange | eCoalesceStateChange | eCoalesceTextSelChange
  | eRemoveDupes | eDoNotEmit

datatype SelChangeType = eSelectionAdd | eSelectionRemove

text \<open>
  One record for \<open>AccEvent\<close> and its subclasses: the fields of
  \<open>AccStateChangeEvent\<close> (\<open>mState\<close>, \<open>mIsEnabled\<close>), of \<open>AccSelChangeEvent\<close>
  (\<open>mWidget\<close>, \<open>mItem\<close>, \<open>mSelChangeType\<close>, \<open>mPreceedingCount\<close>, \<open>mPackedEvent\<close>)
  and of \<open>AccTextSelChangeEvent\<close> (\<open>mSel\<close>) are present in every event, so
  \<open>downcast_accEvent\<close> is the identity. \<open>mPackedEvent\<close> is a pointer to another
  queued event: it is the position of that event in \<open>mEvents\<close>. \<open>mPreceedingCount\<close>
  counts queued events and never exceeds the length of the queue: a natural number.
\<close>

record AccEvent =
  mEventType :: EventType
  mEventRule :: EEventRule
  mAccessible :: LocalAccessible
  mIsFromUserInput :: bool
  mState :: nat
  mIsEnabled :: bool
  mWidget :: LocalAccessible
  mItem :: LocalAccessible
  mSelChangeType :: SelChangeType
  mPreceedingCount :: nat
  mPackedEvent :: "nat option"
  mSel :: nat

datatype crash = InvalidArrayIndex_CRASH

text \<open>\<open>nsTArray::Length\<close> reads the 32-bit length field of the array header.\<close>

definition Length :: "AccEvent list \<Rightarrow> uint32" where
  "Length arr = word_of_nat (length arr)"

text \<open>\<open>nsTArray::operator[]\<close>: a release assertion that the index is below \<open>Length()\<close>.\<close>

definition ElementAt :: "AccEvent list \<Rightarrow> uint32 \<Rightarrow> crash + AccEvent" where
  "ElementAt arr i =
     (if i < Length arr then Inr (arr ! unat i) else Inl InvalidArrayIndex_CRASH)"

text \<open>A write through a pointer to a queued event.\<close>

definition assign :: "AccEvent list \<Rightarrow> nat \<Rightarrow> (AccEvent \<Rightarrow> AccEvent) \<Rightarrow> AccEvent list" where
  "assign arr p f = arr[p := f (arr ! p)]"

definition kSelChangeCountToPack :: nat where
  "kSelChangeCountToPack = 5"

section \<open>EventQueue::CoalesceSelChangeEvents\<close>

text \<open>
  A \<open>uint32_t\<close> index that is decremented stays below its bound only by getting
  smaller: at \<open>0\<close> it wraps to \<open>0xFFFFFFFF\<close>, which is below no bound.
\<close>

lemma decrement_below_bound:
  fixes j :: uint32
  assumes "j - 1 < b"
  shows "unat (j - 1) < unat j"
proof (cases "j = 0")
  case True
  with assms have "(- 1 :: uint32) < b" by simp
  then show ?thesis by simp
next
  case False
  then show ?thesis by (simp add: unat_minus_one unat_gt_0)
qed

text \<open>The loop over \<open>jdx\<close> (lines 305-313).\<close>

function packPreceding :: "AccEvent list \<Rightarrow> nat \<Rightarrow> uint32 \<Rightarrow> uint32 \<Rightarrow> crash + AccEvent list" where
  "packPreceding mEvents aTailEvent aThisIndex jdx =
     (if jdx < aThisIndex then
        (case ElementAt mEvents jdx of
           Inl c \<Rightarrow> Inl c
         | Inr prevEvent \<Rightarrow>
             packPreceding
               (if mEventRule prevEvent = mEventRule (mEvents ! aTailEvent)
                   \<and> mWidget prevEvent = mWidget (mEvents ! aTailEvent)
                then assign mEvents (unat jdx) (\<lambda>e. e\<lparr>mEventRule := eDoNotEmit\<rparr>)
                else mEvents)
               aTailEvent aThisIndex (jdx - 1))
      else Inr mEvents)"
  by pat_completeness auto
termination
  by (relation "measure (\<lambda>(evs, t, bound, j). if j < bound then Suc (unat j) else 0)")
     (auto simp: decrement_below_bound)

definition SelChangeKind :: "SelChangeType \<Rightarrow> EventType" where
  "SelChangeKind t = (if t = eSelectionAdd then EVENT_SELECTION_ADD else EVENT_SELECTION_REMOVE)"

definition CoalesceSelChangeEvents ::
  "AccEvent list \<Rightarrow> nat \<Rightarrow> nat \<Rightarrow> uint32 \<Rightarrow> crash + AccEvent list" where
  "CoalesceSelChangeEvents mEvents aTailEvent aThisEvent aThisIndex =
     (let evs1 = assign mEvents aTailEvent
                   (\<lambda>e. e\<lparr>mPreceedingCount := mPreceedingCount (mEvents ! aThisEvent) + 1\<rparr>) in
      if mPreceedingCount (evs1 ! aTailEvent) \<ge> kSelChangeCountToPack then
        let evs2 = assign evs1 aTailEvent (\<lambda>e. e\<lparr>mEventType := EVENT_SELECTION_WITHIN\<rparr>);
            evs3 = assign evs2 aTailEvent (\<lambda>e. e\<lparr>mAccessible := mWidget e\<rparr>);
            evs4 = assign evs3 aThisEvent (\<lambda>e. e\<lparr>mEventRule := eDoNotEmit\<rparr>)
        in if mEventType (evs4 ! aThisEvent) \<noteq> EVENT_SELECTION_WITHIN
           then packPreceding evs4 aTailEvent aThisIndex (aThisIndex - 1)
           else Inr evs4
      else if mPreceedingCount (evs1 ! aTailEvent) = 1
              \<and> mItem (evs1 ! aTailEvent) \<noteq> mItem (evs1 ! aThisEvent)
              \<and> mSelChangeType (evs1 ! aTailEvent) = eSelectionAdd
              \<and> mSelChangeType (evs1 ! aThisEvent) = eSelectionRemove then
        let evs2 = assign evs1 aThisEvent (\<lambda>e. e\<lparr>mEventRule := eDoNotEmit\<rparr>);
            evs3 = assign evs2 aTailEvent (\<lambda>e. e\<lparr>mEventType := EVENT_SELECTION\<rparr>)
        in Inr (assign evs3 aTailEvent (\<lambda>e. e\<lparr>mPackedEvent := Some aThisEvent\<rparr>))
      else if mPreceedingCount (evs1 ! aTailEvent) = 1
              \<and> mItem (evs1 ! aTailEvent) \<noteq> mItem (evs1 ! aThisEvent)
              \<and> mSelChangeType (evs1 ! aThisEvent) = eSelectionAdd
              \<and> mSelChangeType (evs1 ! aTailEvent) = eSelectionRemove then
        let evs2 = assign evs1 aTailEvent (\<lambda>e. e\<lparr>mEventRule := eDoNotEmit\<rparr>);
            evs3 = assign evs2 aThisEvent (\<lambda>e. e\<lparr>mEventType := EVENT_SELECTION\<rparr>)
        in Inr (assign evs3 aThisEvent (\<lambda>e. e\<lparr>mPackedEvent := Some aTailEvent\<rparr>))
      else if mEventType (evs1 ! aThisEvent) = EVENT_SELECTION then
        let evs2 =
              (case mPackedEvent (evs1 ! aThisEvent) of
                 None \<Rightarrow> evs1
               | Some packed \<Rightarrow>
                   let a = assign evs1 packed (\<lambda>e. e\<lparr>mEventType := SelChangeKind (mSelChangeType e)\<rparr>);
                       b = assign a packed (\<lambda>e. e\<lparr>mEventRule := eCoalesceSelectionChange\<rparr>)
                   in assign b aThisEvent (\<lambda>e. e\<lparr>mPackedEvent := None\<rparr>))
        in Inr (assign evs2 aThisEvent (\<lambda>e. e\<lparr>mEventType := SelChangeKind (mSelChangeType e)\<rparr>))
      else if mEventType (evs1 ! aTailEvent) = EVENT_SELECTION then
        Inr (assign evs1 aTailEvent (\<lambda>e. e\<lparr>mEventType := EVENT_SELECTION_ADD\<rparr>))
      else Inr evs1)"

section \<open>EventQueue::CoalesceEvents\<close>

text \<open>The loop of case \<open>eCoalesceOfSameType\<close> (lines 213-220); \<open>tailEvent\<close> points to
  the entry at position \<open>tailEvent\<close>.\<close>

function coalesceOfSameType ::
  "AccEvent list \<Rightarrow> nat \<Rightarrow> uint32 \<Rightarrow> uint32 \<Rightarrow> crash + AccEvent list" where
  "coalesceOfSameType mEvents tailEvent tail index =
     (if index < tail then
        (case ElementAt mEvents index of
           Inl c \<Rightarrow> Inl c
         | Inr accEvent \<Rightarrow>
             if mEventType accEvent = mEventType (mEvents ! tailEvent)
                \<and> mEventRule accEvent = mEventRule (mEvents ! tailEvent)
             then Inr (assign mEvents (unat index) (\<lambda>e. e\<lparr>mEventRule := eDoNotEmit\<rparr>))
             else coalesceOfSameType mEvents tailEvent tail (index - 1))
      else Inr mEvents)"
  by pat_completeness auto
termination
  by (relation "measure (\<lambda>(evs, t, bound, j). if j < bound then Suc (unat j) else 0)")
     (auto simp: decrement_below_bound)

text \<open>The loop of case \<open>eCoalesceSelectionChange\<close> (lines 226-238).\<close>

function coalesceSelectionChange ::
  "AccEvent list \<Rightarrow> nat \<Rightarrow> uint32 \<Rightarrow> uint32 \<Rightarrow> crash + AccEvent list" where
  "coalesceSelectionChange mEvents tailEvent tail index =
     (if index < tail then
        (case ElementAt mEvents index of
           Inl c \<Rightarrow> Inl c
         | Inr thisEvent \<Rightarrow>
             if mEventRule thisEvent = mEventRule (mEvents ! tailEvent)
                \<and> mWidget (mEvents ! tailEvent) = mWidget thisEvent
             then CoalesceSelChangeEvents mEvents tailEvent (unat index) index
             else coalesceSelectionChange mEvents tailEvent tail (index - 1))
      else Inr mEvents)"
  by pat_completeness auto
termination
  by (relation "measure (\<lambda>(evs, t, bound, j). if j < bound then Suc (unat j) else 0)")
     (auto simp: decrement_below_bound)

text \<open>The loop of case \<open>eCoalesceStateChange\<close> (lines 246-260).\<close>

function coalesceStateChange ::
  "AccEvent list \<Rightarrow> nat \<Rightarrow> uint32 \<Rightarrow> uint32 \<Rightarrow> crash + AccEvent list" where
  "coalesceStateChange mEvents tailEvent tail index =
     (if index < tail then
        (case ElementAt mEvents index of
           Inl c \<Rightarrow> Inl c
         | Inr thisEvent \<Rightarrow>
             coalesceStateChange
               (if mEventRule thisEvent \<noteq> eDoNotEmit
                   \<and> mEventType thisEvent = mEventType (mEvents ! tailEvent)
                   \<and> mAccessible thisEvent = mAccessible (mEvents ! tailEvent)
                   \<and> mState thisEvent = mState (mEvents ! tailEvent)
                then
                  let evs1 = assign mEvents (unat index) (\<lambda>e. e\<lparr>mEventRule := eDoNotEmit\<rparr>)
                  in if mIsEnabled (evs1 ! unat index) \<noteq> mIsEnabled (evs1 ! tailEvent)
                     then assign evs1 tailEvent (\<lambda>e. e\<lparr>mEventRule := eDoNotEmit\<rparr>)
                     else evs1
                else mEvents)
               tailEvent tail (index - 1))
      else Inr mEvents)"
  by pat_completeness auto
termination
  by (relation "measure (\<lambda>(evs, t, bound, j). if j < bound then Suc (unat j) else 0)")
     (auto simp: decrement_below_bound)

text \<open>The loop of case \<open>eCoalesceTextSelChange\<close> (lines 269-280).\<close>

function coalesceTextSelChange ::
  "AccEvent list \<Rightarrow> nat \<Rightarrow> uint32 \<Rightarrow> uint32 \<Rightarrow> crash + AccEvent list" where
  "coalesceTextSelChange mEvents tailEvent tail index =
     (if index < tail then
        (case ElementAt mEvents index of
           Inl c \<Rightarrow> Inl c
         | Inr thisEvent \<Rightarrow>
             coalesceTextSelChange
               (if mEventRule thisEvent \<noteq> eDoNotEmit
                   \<and> mEventType thisEvent = mEventType (mEvents ! tailEvent)
                   \<and> (mSel thisEvent = mSel (mEvents ! tailEvent)
                        \<or> mAccessible thisEvent = mAccessible (mEvents ! tailEvent))
                then assign mEvents (unat index) (\<lambda>e. e\<lparr>mEventRule := eDoNotEmit\<rparr>)
                else mEvents)
               tailEvent tail (index - 1))
      else Inr mEvents)"
  by pat_completeness auto
termination
  by (relation "measure (\<lambda>(evs, t, bound, j). if j < bound then Suc (unat j) else 0)")
     (auto simp: decrement_below_bound)

definition CoalesceEvents :: "AccEvent list \<Rightarrow> crash + AccEvent list" where
  "CoalesceEvents mEvents =
     (let tail = Length mEvents - 1 in
      case ElementAt mEvents tail of
        Inl c \<Rightarrow> Inl c
      | Inr tailEvent \<Rightarrow>
          (case mEventRule tailEvent of
             eCoalesceReorder \<Rightarrow> Inr mEvents
           | eCoalesceOfSameType \<Rightarrow> coalesceOfSameType mEvents (unat tail) tail (tail - 1)
           | eCoalesceSelectionChange \<Rightarrow> coalesceSelectionChange mEvents (unat tail) tail (tail - 1)
           | eCoalesceStateChange \<Rightarrow> coalesceStateChange mEvents (unat tail) tail (tail - 1)
           | eCoalesceTextSelChange \<Rightarrow> coalesceTextSelChange mEvents (unat tail) tail (tail - 1)
           | _ \<Rightarrow> Inr mEvents))"

section \<open>EventQueue::PushEvent and the name/description propagation\<close>

text \<open>The duplicate check of \<open>PushEvent\<close> (lines 50-58): \<open>True\<close> when an older
  identical event is found.\<close>

function hasDuplicate :: "AccEvent list \<Rightarrow> AccEvent \<Rightarrow> uint32 \<Rightarrow> uint32 \<Rightarrow> crash + bool" where
  "hasDuplicate mEvents aEvent lastIndex index =
     (if index \<le> lastIndex then
        (case ElementAt mEvents index of
           Inl c \<Rightarrow> Inl c
         | Inr checkEvent \<Rightarrow>
             if mEventType checkEvent = mEventType aEvent
                \<and> mEventRule checkEvent = mEventRule aEvent
                \<and> mAccessible checkEvent = mAccessible aEvent
             then Inr True
             else hasDuplicate mEvents aEvent lastIndex (index - 1))
      else Inr False)"
  by pat_completeness auto
termination
  by (relation "measure (\<lambda>(evs, e, bound, j). if j < Length evs then Suc (unat j) else 0)")
     (auto simp: ElementAt_def decrement_below_bound split: if_splits)

record EventQueue =
  mEvents :: "AccEvent list"
  mFocusEvent :: "AccEvent option"
  mDocument :: nat

text \<open>
  The accessibility tree is a collaborator: its queries are parameters. \<open>Name\<close> gives
  the name flag and whether the name is void. \<open>DefaultEventRule\<close> and
  \<open>AutoDetectedUserInput\<close> are what the constructor \<open>AccEvent(type, target)\<close>,
  declared outside this file, takes for the two arguments that \<open>new AccEvent\<close> leaves out.
\<close>

datatype RelationType = LABEL_FOR | DESCRIPTION_FOR

datatype ENameValueFlag =
  eNameOK | eNameFromSubtree | eNameFromTooltip | eNameFromRelations | eNameFlagOther

record Tree =
  HasNameRule_eNameFromSubtreeRule :: "LocalAccessible \<Rightarrow> bool"
  HasNameRule_eNameFromSubtreeIfReqRule :: "LocalAccessible \<Rightarrow> bool"
  HasNameDependent :: "LocalAccessible \<Rightarrow> bool"
  HasDescriptionDependent :: "LocalAccessible \<Rightarrow> bool"
  IsHTMLFileInput :: "LocalAccessible \<Rightarrow> bool"
  Name :: "LocalAccessible \<Rightarrow> ENameValueFlag \<times> bool"
  RelationByType :: "LocalAccessible \<Rightarrow> RelationType \<Rightarrow> LocalAccessible list"
  IsDoc :: "LocalAccessible \<Rightarrow> bool"
  LocalParent :: "LocalAccessible \<Rightarrow> LocalAccessible"
  DefaultEventRule :: EEventRule
  AutoDetectedUserInput :: bool

text \<open>\<open>new AccEvent(type, target)\<close>: a plain event, the subclass fields at their
  initial values.\<close>

definition NewAccEvent :: "Tree \<Rightarrow> EventType \<Rightarrow> LocalAccessible \<Rightarrow> AccEvent" where
  "NewAccEvent tree aEventType aAccessible =
     \<lparr>mEventType = aEventType, mEventRule = DefaultEventRule tree, mAccessible = aAccessible,
      mIsFromUserInput = AutoDetectedUserInput tree, mState = 0, mIsEnabled = False, mWidget = 0,
      mItem = 0, mSelChangeType = eSelectionAdd, mPreceedingCount = 0, mPackedEvent = None,
      mSel = 0\<rparr>"

definition relationEventType :: "RelationType \<Rightarrow> EventType" where
  "relationEventType aType =
     (if aType = LABEL_FOR then EVENT_NAME_CHANGE else EVENT_DESCRIPTION_CHANGE)"

text \<open>The decision of lines 130-156.\<close>

definition fireNameChange :: "Tree \<Rightarrow> LocalAccessible \<Rightarrow> bool" where
  "fireNameChange tree parent =
     (if IsHTMLFileInput tree parent then True
      else (case Name tree parent of
              (eNameOK, isVoid) \<Rightarrow> isVoid
            | (eNameFromSubtree, _) \<Rightarrow> True
            | (eNameFromTooltip, _) \<Rightarrow> True
            | (eNameFromRelations, _) \<Rightarrow> True
            | (eNameFlagOther, _) \<Rightarrow> False))"

text \<open>The condition of line 126-127.\<close>

definition nameCheckApplies :: "Tree \<Rightarrow> bool \<Rightarrow> bool \<Rightarrow> LocalAccessible \<Rightarrow> LocalAccessible \<Rightarrow> bool" where
  "nameCheckApplies tree nameCheckAncestor maybeTargetNameChanged target parent =
     (nameCheckAncestor \<and> (maybeTargetNameChanged \<or> parent \<noteq> target)
      \<and> HasNameRule_eNameFromSubtreeRule tree parent)"

text \<open>
  A call that runs out of fuel has not returned: \<open>None\<close>. A call that returns gives
  \<open>Some (Inr (result, queue))\<close>, and \<open>Some (Inl c)\<close> when an array index is out of range.
  \<open>PushEvent\<close> writes to the event it is given: its result is the returned flag and the
  event as the call leaves it.
\<close>

type_synonym 'a outcome = "(crash + 'a \<times> EventQueue) option"

definition andThen :: "'a outcome \<Rightarrow> ('a \<Rightarrow> EventQueue \<Rightarrow> 'b outcome) \<Rightarrow> 'b outcome" where
  "andThen m f = (case m of None \<Rightarrow> None | Some (Inl c) \<Rightarrow> Some (Inl c) | Some (Inr (r, q)) \<Rightarrow> f r q)"

lemma andThen_cong [fundef_cong]:
  "m = m' \<Longrightarrow> (\<And>r q. m' = Some (Inr (r, q)) \<Longrightarrow> f r q = f' r q) \<Longrightarrow> andThen m f = andThen m' f'"
  by (auto simp: andThen_def split: option.splits sum.splits)

definition isPropagatingType :: "EventType \<Rightarrow> bool" where
  "isPropagatingType t =
     (t = EVENT_NAME_CHANGE \<or> t = EVENT_TEXT_REMOVED \<or> t = EVENT_TEXT_INSERTED)"

text \<open>
  \<open>PushNameOrDescriptionChange\<close> and \<open>PushEvent\<close> call each other. The three
  functions of the propagation take the \<open>PushEvent\<close> they call as the argument \<open>push\<close>;
  \<open>PushEvent\<close> below passes itself, with one unit of fuel less.
\<close>

text \<open>Lines 87-90: the list is what \<open>rel.LocalNext()\<close> yields.\<close>

primrec PushNameOrDescriptionChangeToRelations ::
  "(EventQueue \<Rightarrow> AccEvent \<Rightarrow> (bool \<times> AccEvent) outcome) \<Rightarrow> Tree \<Rightarrow> EventType \<Rightarrow> LocalAccessible list
     \<Rightarrow> bool \<Rightarrow> EventQueue \<Rightarrow> bool outcome" where
  "PushNameOrDescriptionChangeToRelations push tree eventType [] pushed q = Some (Inr (pushed, q))"
| "PushNameOrDescriptionChangeToRelations push tree eventType (relTarget # rel) pushed q =
     andThen (push q (NewAccEvent tree eventType relTarget))
       (\<lambda>r q'. PushNameOrDescriptionChangeToRelations push tree eventType rel (pushed \<or> fst r) q')"

text \<open>Lines 125-168: the part of the loop body under \<open>if (doName)\<close>. The result is
  \<open>(pushed, nameCheckAncestor)\<close>.\<close>

definition walkName ::
  "(EventQueue \<Rightarrow> AccEvent \<Rightarrow> (bool \<times> AccEvent) outcome) \<Rightarrow> Tree \<Rightarrow> LocalAccessible \<Rightarrow> bool \<Rightarrow> bool \<Rightarrow> bool
     \<Rightarrow> LocalAccessible \<Rightarrow> EventQueue \<Rightarrow> (bool \<times> bool) outcome" where
  "walkName push tree target maybeTargetNameChanged pushed nameCheckAncestor parent q =
     andThen
       (if nameCheckApplies tree nameCheckAncestor maybeTargetNameChanged target parent then
          andThen
            (if fireNameChange tree parent
             then andThen (push q (NewAccEvent tree EVENT_NAME_CHANGE parent))
                    (\<lambda>r q'. Some (Inr (pushed \<or> fst r, q')))
             else Some (Inr (pushed, q)))
            (\<lambda>pushed1 q1. Some (Inr ((pushed1, False), q1)))
        else Some (Inr ((pushed, nameCheckAncestor), q)))
       (\<lambda>pc q1.
          andThen
            (PushNameOrDescriptionChangeToRelations push tree (relationEventType LABEL_FOR)
               (RelationByType tree parent LABEL_FOR) False q1)
            (\<lambda>r q2. Some (Inr ((fst pc \<or> r, snd pc), q2))))"

text \<open>Lines 124-173: one pass through the body of the \<open>do\<close> loop.\<close>

definition walkBody ::
  "(EventQueue \<Rightarrow> AccEvent \<Rightarrow> (bool \<times> AccEvent) outcome) \<Rightarrow> Tree \<Rightarrow> LocalAccessible \<Rightarrow> bool \<Rightarrow> bool \<Rightarrow> bool
     \<Rightarrow> bool \<Rightarrow> bool \<Rightarrow> LocalAccessible \<Rightarrow> EventQueue \<Rightarrow> (bool \<times> bool) outcome" where
  "walkBody push tree target maybeTargetNameChanged doName doDesc pushed nameCheckAncestor parent q =
     andThen
       (if doName
        then walkName push tree target maybeTargetNameChanged pushed nameCheckAncestor parent q
        else Some (Inr ((pushed, nameCheckAncestor), q)))
       (\<lambda>pc q2.
          if doDesc then
            andThen
              (PushNameOrDescriptionChangeToRelations push tree (relationEventType DESCRIPTION_FOR)
                 (RelationByType tree parent DESCRIPTION_FOR) False q2)
              (\<lambda>r q3. Some (Inr ((fst pc \<or> r, snd pc), q3)))
          else Some (Inr (pc, q2)))"

text \<open>Lines 123-181: the \<open>do\<close> loop over the ancestors; the parent chain of the tree may
  be of any length, so the loop has its own fuel.\<close>

primrec walk ::
  "nat \<Rightarrow> (EventQueue \<Rightarrow> AccEvent \<Rightarrow> (bool \<times> AccEvent) outcome) \<Rightarrow> Tree \<Rightarrow> LocalAccessible \<Rightarrow> bool \<Rightarrow> bool
     \<Rightarrow> bool \<Rightarrow> bool \<Rightarrow> bool \<Rightarrow> LocalAccessible \<Rightarrow> EventQueue \<Rightarrow> bool outcome" where
  "walk 0 push tree target maybeTargetNameChanged doName doDesc pushed nameCheckAncestor parent q = None"
| "walk (Suc fuel) push tree target maybeTargetNameChanged doName doDesc pushed nameCheckAncestor parent q =
     andThen
       (walkBody push tree target maybeTargetNameChanged doName doDesc pushed nameCheckAncestor parent q)
       (\<lambda>pc q'.
          if IsDoc tree parent then Some (Inr (fst pc, q'))
          else if LocalParent tree parent \<noteq> 0
                  \<and> HasNameRule_eNameFromSubtreeIfReqRule tree (LocalParent tree parent)
          then walk fuel push tree target maybeTargetNameChanged doName doDesc (fst pc) (snd pc)
                 (LocalParent tree parent) q'
          else Some (Inr (fst pc, q')))"

definition PushNameOrDescriptionChange ::
  "nat \<Rightarrow> (EventQueue \<Rightarrow> AccEvent \<Rightarrow> (bool \<times> AccEvent) outcome) \<Rightarrow> Tree \<Rightarrow> EventType \<Rightarrow> LocalAccessible
     \<Rightarrow> EventQueue \<Rightarrow> bool outcome" where
  "PushNameOrDescriptionChange fuel push tree aOrigEventType target q =
     (let maybeTargetNameChanged =
            ((aOrigEventType = EVENT_TEXT_REMOVED \<or> aOrigEventType = EVENT_TEXT_INSERTED
              \<or> aOrigEventType = EVENT_REORDER \<or> aOrigEventType = EVENT_INNER_REORDER)
             \<and> HasNameRule_eNameFromSubtreeRule tree target);
          doName = (HasNameDependent tree target \<or> maybeTargetNameChanged);
          doDesc = HasDescriptionDependent tree target
      in if \<not> doName \<and> \<not> doDesc then Some (Inr (False, q))
         else walk fuel push tree target maybeTargetNameChanged doName doDesc False True target q)"

text \<open>Lines 41-59: \<open>Inr True\<close> when the event is dropped as a duplicate.\<close>

definition isDuplicate :: "AccEvent list \<Rightarrow> AccEvent \<Rightarrow> crash + bool" where
  "isDuplicate evs aEvent =
     (if mEventRule aEvent = eRemoveDupes \<and> Length evs \<noteq> 0
      then hasDuplicate evs aEvent (Length evs - 1) (Length evs - 1)
      else Inr False)"

text \<open>Lines 63-74, given the \<open>PushEvent\<close> that the propagation calls. After
  \<open>CoalesceEvents\<close>, \<open>aEvent\<close> is the last entry of the queue.\<close>

definition appendAndCoalesce ::
  "nat \<Rightarrow> (EventQueue \<Rightarrow> AccEvent \<Rightarrow> (bool \<times> AccEvent) outcome) \<Rightarrow> Tree \<Rightarrow> EventQueue \<Rightarrow> AccEvent
     \<Rightarrow> (bool \<times> AccEvent) outcome" where
  "appendAndCoalesce fuel push tree q aEvent =
     (case CoalesceEvents (mEvents q @ [aEvent]) of
        Inl c \<Rightarrow> Some (Inl c)
      | Inr coalesced \<Rightarrow>
          if isPropagatingType (mEventType (last coalesced)) then
            andThen
              (PushNameOrDescriptionChange fuel push tree (mEventType (last coalesced))
                 (mAccessible (last coalesced)) (q\<lparr>mEvents := coalesced\<rparr>))
              (\<lambda>_ q'. Some (Inr ((True, mEvents q' ! length (mEvents q)), q')))
          else Some (Inr ((True, last coalesced), q\<lparr>mEvents := coalesced\<rparr>)))"

primrec PushEvent :: "nat \<Rightarrow> Tree \<Rightarrow> EventQueue \<Rightarrow> AccEvent \<Rightarrow> (bool \<times> AccEvent) outcome" where
  "PushEvent 0 tree = (\<lambda>q aEvent. None)"
| "PushEvent (Suc fuel) tree = (\<lambda>q aEvent.
     if mEventType aEvent = EVENT_FOCUS then
       Some (Inr ((True, aEvent), q\<lparr>mFocusEvent := Some aEvent\<rparr>))
     else
       (case isDuplicate (mEvents q) aEvent of
          Inl c \<Rightarrow> Some (Inl c)
        | Inr True \<Rightarrow> Some (Inr ((True, aEvent\<lparr>mEventRule := eDoNotEmit\<rparr>), q))
        | Inr False \<Rightarrow> appendAndCoalesce fuel (PushEvent fuel tree) tree q aEvent))"

text \<open>A producer pushing a sequence of events, one after the other.\<close>

primrec PushEvents :: "nat \<Rightarrow> Tree \<Rightarrow> AccEvent list \<Rightarrow> EventQueue \<Rightarrow> unit outcome" where
  "PushEvents fuel tree [] q = Some (Inr ((), q))"
| "PushEvents fuel tree (aEvent # rest) q =
     andThen (PushEvent fuel tree q aEvent) (\<lambda>_ q'. PushEvents fuel tree rest q')"

section \<open>EventQueue::ProcessEventQueue\<close>

text \<open>
  The calls the drain makes to its collaborators, in order, are its observable result.
  \<open>FireStateChange a enabled fromUser\<close> is
  \<open>nsEventShell::FireEvent(a, states::SELECTED, enabled, fromUser)\<close>.
\<close>

datatype Call =
    ProcessFocusEvent AccEvent
  | ProcessTextSelChangeEvent AccEvent
  | FireStateChange LocalAccessible bool bool
  | FireEvent AccEvent
  | SendQueuedMutationEvents
  | SendSelectedAccessiblesChanged "nat list" "nat list"

text \<open>
  The world outside the queue has a state of its own (type \<open>'w\<close>). A call to a collaborator
  may change that state and, re-entering the queue, the live queue itself (push events,
  detach the document): \<open>react\<close>.
\<close>

record 'w Collaborators =
  IsDefunct :: "'w \<Rightarrow> LocalAccessible \<Rightarrow> bool"
  IPCAccessibilityActive :: "'w \<Rightarrow> bool"
  HasIPCDoc :: "'w \<Rightarrow> bool"
  ItemIsDoc :: "'w \<Rightarrow> LocalAccessible \<Rightarrow> bool"
  UniqueID :: "LocalAccessible \<Rightarrow> nat"
  react :: "Call \<Rightarrow> 'w \<times> EventQueue \<Rightarrow> 'w \<times> EventQueue"

record 'w Drain =
  world :: 'w
  queue :: EventQueue
  selectedIDs :: "nat list"
  unselectedIDs :: "nat list"
  calls :: "Call list"

definition invoke :: "'w Collaborators \<Rightarrow> Call \<Rightarrow> 'w Drain \<Rightarrow> 'w Drain" where
  "invoke collab c st =
     (let wq = react collab c (world st, queue st)
      in st\<lparr>world := fst wq, queue := snd wq, calls := calls st @ [c]\<rparr>)"

definition isSelectionKind :: "EventType \<Rightarrow> bool" where
  "isSelectionKind t =
     (t = EVENT_SELECTION_ADD \<or> t = EVENT_SELECTION_REMOVE \<or> t = EVENT_SELECTION)"

text \<open>Lines 414-437.\<close>

definition collectSelectChange :: "'w Collaborators \<Rightarrow> AccEvent \<Rightarrow> 'w Drain \<Rightarrow> 'w Drain" where
  "collectSelectChange collab event st =
     (if IPCAccessibilityActive collab (world st)
         \<and> ((mEventRule event = eDoNotEmit \<and> isSelectionKind (mEventType event))
              \<or> mEventType event = EVENT_SELECTION_WITHIN)
         \<and> \<not> IsDefunct collab (world st) (mItem event)
      then
        let itemID = (if ItemIsDoc collab (world st) (mItem event) then 0
                      else UniqueID collab (mItem event))
        in if mSelChangeType event = eSelectionAdd
           then st\<lparr>selectedIDs := selectedIDs st @ [itemID]\<rparr>
           else st\<lparr>unselectedIDs := unselectedIDs st @ [itemID]\<rparr>
      else st)"

text \<open>Lines 449-472.\<close>

definition fireSelectedState :: "'w Collaborators \<Rightarrow> AccEvent list \<Rightarrow> AccEvent \<Rightarrow> 'w Drain \<Rightarrow> 'w Drain" where
  "fireSelectedState collab events event st =
     (if mEventType event = EVENT_SELECTION_ADD then
        invoke collab (FireStateChange (mAccessible event) True (mIsFromUserInput event)) st
      else if mEventType event = EVENT_SELECTION_REMOVE then
        invoke collab (FireStateChange (mAccessible event) False (mIsFromUserInput event)) st
      else if mEventType event = EVENT_SELECTION then
        let st1 = invoke collab
                    (FireStateChange (mAccessible event) (mSelChangeType event = eSelectionAdd)
                       (mIsFromUserInput event)) st
        in (case mPackedEvent event of
              None \<Rightarrow> st1
            | Some p \<Rightarrow>
                invoke collab
                  (FireStateChange (mAccessible (events ! p))
                     (mSelChangeType (events ! p) = eSelectionAdd)
                     (mIsFromUserInput (events ! p))) st1)
      else st)"

text \<open>Lines 406-492: one pass through the body of the loop over \<open>idx\<close>. The second
  component is \<open>True\<close> when the body executes \<open>return\<close>.\<close>

definition processEvent ::
  "'w Collaborators \<Rightarrow> AccEvent list \<Rightarrow> AccEvent \<Rightarrow> 'w Drain \<Rightarrow> 'w Drain \<times> bool" where
  "processEvent collab events event st =
     (if mAccessible event = 0 \<or> IsDefunct collab (world st) (mAccessible event) then (st, False)
      else
        let st1 = collectSelectChange collab event st in
        if mEventRule event = eDoNotEmit then (st1, False)
        else if mEventType event = EVENT_TEXT_SELECTION_CHANGED then
          (invoke collab (ProcessTextSelChangeEvent event) st1, False)
        else
          let st2 = fireSelectedState collab events event st1;
              st3 = invoke collab (FireEvent event) st2
          in if mDocument (queue st3) = 0 then (st3, True)
             else if (mEventType event = EVENT_REORDER \<or> mEventType event = EVENT_TEXT_INSERTED
                      \<or> mEventType event = EVENT_TEXT_REMOVED) \<and> HasIPCDoc collab (world st3)
             then (invoke collab SendQueuedMutationEvents st3, False)
             else (st3, False))"

text \<open>The loop over \<open>idx\<close>: \<open>rest\<close> is what is left of \<open>events\<close>.\<close>

primrec processEvents ::
  "'w Collaborators \<Rightarrow> AccEvent list \<Rightarrow> AccEvent list \<Rightarrow> 'w Drain \<Rightarrow> 'w Drain \<times> bool" where
  "processEvents collab events [] st = (st, False)"
| "processEvents collab events (event # rest) st =
     (let r = processEvent collab events event st
      in if snd r then r else processEvents collab events rest (fst r))"

text \<open>Lines 387-403.\<close>

definition processFocus :: "'w Collaborators \<Rightarrow> 'w Drain \<Rightarrow> 'w Drain" where
  "processFocus collab st =
     (case mFocusEvent (queue st) of
        None \<Rightarrow> st
      | Some event \<Rightarrow>
          let st1 = st\<lparr>queue := (queue st)\<lparr>mFocusEvent := None\<rparr>\<rparr>
          in if \<not> IsDefunct collab (world st1) (mAccessible event)
             then invoke collab (ProcessFocusEvent event) st1
             else st1)"

definition ProcessEventQueue :: "'w Collaborators \<Rightarrow> 'w \<Rightarrow> EventQueue \<Rightarrow> 'w Drain" where
  "ProcessEventQueue collab w q =
     (let events = mEvents q;
          st0 = \<lparr>world = w, queue = q\<lparr>mEvents := []\<rparr>, selectedIDs = [], unselectedIDs = [],
                 calls = []\<rparr>;
          st1 = processFocus collab st0;
          r = processEvents collab events events st1
      in if snd r then fst r
         else if mDocument (queue (fst r)) \<noteq> 0 \<and> IPCAccessibilityActive collab (world (fst r))
                 \<and> (selectedIDs (fst r) \<noteq> [] \<or> unselectedIDs (fst r) \<noteq> [])
         then invoke collab (SendSelectedAccessiblesChanged (selectedIDs (fst r)) (unselectedIDs (fst r)))
                (fst r)
         else fst r)"

section \<open>Example events\<close>

text \<open>Events as their constructors leave them, for the worked examples below: a plain
  \<open>AccEvent\<close>, an \<open>AccStateChangeEvent\<close> and an \<open>AccSelChangeEvent\<close>.\<close>

definition plainEvent :: "EventType \<Rightarrow> EEventRule \<Rightarrow> LocalAccessible \<Rightarrow> AccEvent" where
  "plainEvent aEventType aEventRule aAccessible =
     \<lparr>mEventType = aEventType, mEventRule = aEventRule, mAccessible = aAccessible,
      mIsFromUserInput = False, mState = 0, mIsEnabled = False, mWidget = 0,
      mItem = 0, mSelChangeType = eSelectionAdd, mPreceedingCount = 0, mPackedEvent = None,
      mSel = 0\<rparr>"

definition stateChangeEvent :: "LocalAccessible \<Rightarrow> nat \<Rightarrow> bool \<Rightarrow> AccEvent" where
  "stateChangeEvent aAccessible aState aIsEnabled =
     (plainEvent EVENT_STATE_CHANGE eCoalesceStateChange aAccessible)
       \<lparr>mState := aState, mIsEnabled := aIsEnabled\<rparr>"

definition selChangeEvent :: "LocalAccessible \<Rightarrow> LocalAccessible \<Rightarrow> SelChangeType \<Rightarrow> AccEvent" where
  "selChangeEvent aWidget aItem aSelChangeType =
     (plainEvent (SelChangeKind aSelChangeType) eCoalesceSelectionChange aItem)
       \<lparr>mWidget := aWidget, mItem := aItem, mSelChangeType := aSelChangeType\<rparr>"

section \<open>The scans on natural numbers\<close>

text \<open>
  The loops of the source count a \<open>uint32_t\<close> index down until it wraps. For the
  proofs each loop is restated on natural numbers: \<open>n\<close> entries are left to visit,
  positions \<open>n - 1\<close> down to \<open>0\<close>. The lemmas of the next section show that the loops
  of the source compute exactly these functions on every array of less than \<open>2 ^ 32\<close>
  entries.
\<close>

primrec packScan :: "AccEvent list \<Rightarrow> nat \<Rightarrow> nat \<Rightarrow> AccEvent list" where
  "packScan evs t 0 = evs"
| "packScan evs t (Suc j) =
     packScan (if mEventRule (evs ! j) = mEventRule (evs ! t) \<and> mWidget (evs ! j) = mWidget (evs ! t)
               then assign evs j (\<lambda>e. e\<lparr>mEventRule := eDoNotEmit\<rparr>) else evs) t j"

primrec sameTypeScan :: "AccEvent list \<Rightarrow> nat \<Rightarrow> nat \<Rightarrow> AccEvent list" where
  "sameTypeScan evs t 0 = evs"
| "sameTypeScan evs t (Suc i) =
     (if mEventType (evs ! i) = mEventType (evs ! t) \<and> mEventRule (evs ! i) = mEventRule (evs ! t)
      then assign evs i (\<lambda>e. e\<lparr>mEventRule := eDoNotEmit\<rparr>)
      else sameTypeScan evs t i)"

primrec selChangeScan :: "AccEvent list \<Rightarrow> nat \<Rightarrow> nat \<Rightarrow> crash + AccEvent list" where
  "selChangeScan evs t 0 = Inr evs"
| "selChangeScan evs t (Suc i) =
     (if mEventRule (evs ! i) = mEventRule (evs ! t) \<and> mWidget (evs ! t) = mWidget (evs ! i)
      then CoalesceSelChangeEvents evs t i (word_of_nat i)
      else selChangeScan evs t i)"

primrec stateChangeScan :: "AccEvent list \<Rightarrow> nat \<Rightarrow> nat \<Rightarrow> AccEvent list" where
  "stateChangeScan evs t 0 = evs"
| "stateChangeScan evs t (Suc i) =
     stateChangeScan
       (if mEventRule (evs ! i) \<noteq> eDoNotEmit \<and> mEventType (evs ! i) = mEventType (evs ! t)
           \<and> mAccessible (evs ! i) = mAccessible (evs ! t) \<and> mState (evs ! i) = mState (evs ! t)
        then let evs1 = assign evs i (\<lambda>e. e\<lparr>mEventRule := eDoNotEmit\<rparr>)
             in if mIsEnabled (evs1 ! i) \<noteq> mIsEnabled (evs1 ! t)
                then assign evs1 t (\<lambda>e. e\<lparr>mEventRule := eDoNotEmit\<rparr>) else evs1
        else evs) t i"

primrec textSelScan :: "AccEvent list \<Rightarrow> nat \<Rightarrow> nat \<Rightarrow> AccEvent list" where
  "textSelScan evs t 0 = evs"
| "textSelScan evs t (Suc i) =
     textSelScan
       (if mEventRule (evs ! i) \<noteq> eDoNotEmit \<and> mEventType (evs ! i) = mEventType (evs ! t)
           \<and> (mSel (evs ! i) = mSel (evs ! t) \<or> mAccessible (evs ! i) = mAccessible (evs ! t))
        then assign evs i (\<lambda>e. e\<lparr>mEventRule := eDoNotEmit\<rparr>)
        else evs) t i"

primrec dupScan :: "AccEvent list \<Rightarrow> AccEvent \<Rightarrow> nat \<Rightarrow> bool" where
  "dupScan evs a 0 = False"
| "dupScan evs a (Suc i) =
     (if mEventType (evs ! i) = mEventType a \<and> mEventRule (evs ! i) = mEventRule a
         \<and> mAccessible (evs ! i) = mAccessible a
      then True else dupScan evs a i)"

section \<open>Notions used in the statements, and example inputs\<close>

text \<open>The test of lines 228 and 232 on the entry at position \<open>i\<close>, for the tail at
  position \<open>t\<close>.\<close>

definition sameRuleAndWidget :: "AccEvent list \<Rightarrow> nat \<Rightarrow> nat \<Rightarrow> bool" where
  "sameRuleAndWidget evs t i =
     (mEventRule (evs ! i) = mEventRule (evs ! t) \<and> mWidget (evs ! t) = mWidget (evs ! i))"

text \<open>A queue of three selection events, the second one for another widget.\<close>

definition threeSelections :: "AccEvent list" where
  "threeSelections =
     [selChangeEvent 9 1 eSelectionAdd, selChangeEvent 8 2 eSelectionAdd,
      selChangeEvent 9 3 eSelectionRemove]"

text \<open>The event a call delivers, if it delivers one.\<close>

definition deliveredEvent :: "Call \<Rightarrow> AccEvent option" where
  "deliveredEvent c =
     (case c of
        ProcessFocusEvent e \<Rightarrow> Some e
      | ProcessTextSelChangeEvent e \<Rightarrow> Some e
      | FireEvent e \<Rightarrow> Some e
      | _ \<Rightarrow> None)"

text \<open>The world and the live queue after the collaborators have reacted to a list of calls.\<close>

definition reactAll :: "'w Collaborators \<Rightarrow> Call list \<Rightarrow> 'w \<times> EventQueue \<Rightarrow> 'w \<times> EventQueue" where
  "reactAll collab cs wq = foldl (\<lambda>x c. react collab c x) wq cs"

text \<open>\<open>st'\<close> comes from \<open>st\<close> by the calls \<open>new\<close>, and by nothing else that touches the world
  or the live queue.\<close>

definition extends :: "'w Collaborators \<Rightarrow> 'w Drain \<Rightarrow> Call list \<Rightarrow> 'w Drain \<Rightarrow> bool" where
  "extends collab st new st' =
     (calls st' = calls st @ new
      \<and> (world st', queue st') = reactAll collab new (world st, queue st))"

text \<open>The calls of lines 449-472 for an event.\<close>

definition selectedStateCalls :: "AccEvent list \<Rightarrow> AccEvent \<Rightarrow> Call list" where
  "selectedStateCalls events event =
     (if mEventType event = EVENT_SELECTION_ADD then
        [FireStateChange (mAccessible event) True (mIsFromUserInput event)]
      else if mEventType event = EVENT_SELECTION_REMOVE then
        [FireStateChange (mAccessible event) False (mIsFromUserInput event)]
      else if mEventType event = EVENT_SELECTION then
        FireStateChange (mAccessible event) (mSelChangeType event = eSelectionAdd)
          (mIsFromUserInput event)
        # (case mPackedEvent event of
             None \<Rightarrow> []
           | Some p \<Rightarrow> [FireStateChange (mAccessible (events ! p))
                          (mSelChangeType (events ! p) = eSelectionAdd)
                          (mIsFromUserInput (events ! p))])
      else [])"

text \<open>What one pass through the loop body may call: nothing for an entry that is skipped,
  else the selected-state calls, the event itself and possibly the flush of mutation events.\<close>

definition eventCalls :: "AccEvent list \<Rightarrow> AccEvent \<Rightarrow> Call list \<Rightarrow> bool" where
  "eventCalls events event new =
     (new = []
      \<or> (mEventRule event \<noteq> eDoNotEmit \<and> mAccessible event \<noteq> 0
          \<and> (new = [ProcessTextSelChangeEvent event]
             \<or> new = selectedStateCalls events event @ [FireEvent event]
             \<or> new = selectedStateCalls events event @ [FireEvent event, SendQueuedMutationEvents])))"

text \<open>The calls of one pass through the loop body for an entry, when the pass starts in the
  world \<open>w\<close>: none if the target is null or defunct (lines 409-411) or the rule is
  \<open>eDoNotEmit\<close> (lines 439-441); else the delivery of the entry (lines 444-474), followed
  by the flush of the mutation events when lines 486-491 send it.\<close>

definition turnCalls :: "'w Collaborators \<Rightarrow> AccEvent list \<Rightarrow> AccEvent \<Rightarrow> 'w \<Rightarrow> Call list \<Rightarrow> bool" where
  "turnCalls collab events event w new =
     (if mAccessible event = 0 \<or> IsDefunct collab w (mAccessible event)
         \<or> mEventRule event = eDoNotEmit
      then new = []
      else if mEventType event = EVENT_TEXT_SELECTION_CHANGED
      then new = [ProcessTextSelChangeEvent event]
      else new = selectedStateCalls events event @ [FireEvent event]
           \<or> new = selectedStateCalls events event @ [FireEvent event, SendQueuedMutationEvents])"

text \<open>What a push that is not a focus event may do to the queue: the focus slot and the
  document stay, the sequence does not get shorter.\<close>

definition grows :: "EventQueue \<Rightarrow> EventQueue \<Rightarrow> bool" where
  "grows q q' =
     (mFocusEvent q' = mFocusEvent q \<and> mDocument q' = mDocument q
      \<and> length (mEvents q) \<le> length (mEvents q'))"

definition pushGrows :: "(EventQueue \<Rightarrow> AccEvent \<Rightarrow> (bool \<times> AccEvent) outcome) \<Rightarrow> bool" where
  "pushGrows push =
     (\<forall>q e r q'. mEventType e \<noteq> EVENT_FOCUS \<longrightarrow> push q e = Some (Inr (r, q')) \<longrightarrow> grows q q')"

text \<open>A tree in which nothing has a name or description dependent, collaborators that never
  react, and an empty queue.\<close>

definition quietTree :: Tree where
  "quietTree =
     \<lparr>HasNameRule_eNameFromSubtreeRule = (\<lambda>_. False),
      HasNameRule_eNameFromSubtreeIfReqRule = (\<lambda>_. False),
      HasNameDependent = (\<lambda>_. False), HasDescriptionDependent = (\<lambda>_. False),
      IsHTMLFileInput = (\<lambda>_. False), Name = (\<lambda>_. (eNameOK, False)),
      RelationByType = (\<lambda>_ _. []), IsDoc = (\<lambda>_. False), LocalParent = (\<lambda>_. 0),
      DefaultEventRule = eRemoveDupes, AutoDetectedUserInput = False\<rparr>"

definition quietCollab :: "unit Collaborators" where
  "quietCollab =
     \<lparr>IsDefunct = (\<lambda>_ _. False), IPCAccessibilityActive = (\<lambda>_. False), HasIPCDoc = (\<lambda>_. False),
      ItemIsDoc = (\<lambda>_ _. False), UniqueID = (\<lambda>a. a), react = (\<lambda>_ wq. wq)\<rparr>"

definition emptyQueue :: EventQueue where
  "emptyQueue = \<lparr>mEvents = [], mFocusEvent = None, mDocument = 1\<rparr>"

text \<open>Collaborators whose listener, when an event is fired, pushes a new event.\<close>

definition pushingCollab :: "unit Collaborators" where
  "pushingCollab =
     quietCollab\<lparr>react := (\<lambda>c wq.
       case c of
         FireEvent e \<Rightarrow>
           (case PushEvent 1 quietTree (snd wq) (plainEvent (EVENT_OTHER 1) eAllowDupes 7) of
              Some (Inr (_, q')) \<Rightarrow> (fst wq, q')
            | _ \<Rightarrow> wq)
       | _ \<Rightarrow> wq)\<rparr>"

text \<open>Collaborators whose listener, when an event is fired, shuts the document down; a queue
  of two events; and a queue with a focus event and three events, the second of them
  suppressed.\<close>

definition detachingCollab :: "unit Collaborators" where
  "detachingCollab =
     quietCollab\<lparr>react := (\<lambda>c wq.
       case c of
         FireEvent e \<Rightarrow> (fst wq, (snd wq)\<lparr>mDocument := 0\<rparr>)
       | _ \<Rightarrow> wq)\<rparr>"

definition twoEventsQueue :: EventQueue where
  "twoEventsQueue =
     emptyQueue\<lparr>mEvents := [plainEvent (EVENT_OTHER 0) eAllowDupes 3,
                             plainEvent (EVENT_OTHER 0) eAllowDupes 4]\<rparr>"

definition threeEventsQueue :: EventQueue where
  "threeEventsQueue =
     \<lparr>mEvents = [plainEvent (EVENT_OTHER 0) eAllowDupes 3,
                 (plainEvent (EVENT_OTHER 0) eAllowDupes 4)\<lparr>mEventRule := eDoNotEmit\<rparr>,
                 plainEvent (EVENT_OTHER 0) eAllowDupes 5],
      mFocusEvent = Some (plainEvent EVENT_FOCUS eAllowDupes 6), mDocument = 1\<rparr>"

text \<open>One pass through the body of the loop of case \<open>eCoalesceStateChange\<close>.\<close>

definition stateChangeStep :: "AccEvent list \<Rightarrow> nat \<Rightarrow> nat \<Rightarrow> AccEvent list" where
  "stateChangeStep evs t i =
     (if mEventRule (evs ! i) \<noteq> eDoNotEmit \<and> mEventType (evs ! i) = mEventType (evs ! t)
         \<and> mAccessible (evs ! i) = mAccessible (evs ! t) \<and> mState (evs ! i) = mState (evs ! t)
      then let evs1 = assign evs i (\<lambda>e. e\<lparr>mEventRule := eDoNotEmit\<rparr>)
           in if mIsEnabled (evs1 ! i) \<noteq> mIsEnabled (evs1 ! t)
              then assign evs1 t (\<lambda>e. e\<lparr>mEventRule := eDoNotEmit\<rparr>) else evs1
      else evs)"

text \<open>An entry is as it was, or as it was with rule \<open>eDoNotEmit\<close>.\<close>

definition suppressed :: "AccEvent \<Rightarrow> AccEvent \<Rightarrow> bool" where
  "suppressed e e' = (e' = e \<or> e' = e\<lparr>mEventRule := eDoNotEmit\<rparr>)"

text \<open>A state toggled three times in one generation.\<close>

definition threeToggles :: "AccEvent list" where
  "threeToggles =
     [stateChangeEvent 4 1 True, stateChangeEvent 4 1 False, stateChangeEvent 4 1 True]"

definition threeTogglesQueue :: EventQueue where
  "threeTogglesQueue =
     \<lparr>mEvents = [(stateChangeEvent 4 1 True)\<lparr>mEventRule := eDoNotEmit\<rparr>,
                 (stateChangeEvent 4 1 False)\<lparr>mEventRule := eDoNotEmit\<rparr>,
                 stateChangeEvent 4 1 True],
      mFocusEvent = None, mDocument = 1\<rparr>"

text \<open>The test of lines 52-54.\<close>

definition identicalTo :: "AccEvent \<Rightarrow> AccEvent \<Rightarrow> bool" where
  "identicalTo aEvent checkEvent =
     (mEventType checkEvent = mEventType aEvent \<and> mEventRule checkEvent = mEventRule aEvent
      \<and> mAccessible checkEvent = mAccessible aEvent)"

text \<open>A queue with one reorder event.\<close>

definition oneReorderQueue :: EventQueue where
  "oneReorderQueue = emptyQueue\<lparr>mEvents := [plainEvent EVENT_REORDER eRemoveDupes 2]\<rparr>"

text \<open>The merged pair, as lines 324-326 leave it: the remove, and the add that packs it.\<close>

definition packedRemove :: "AccEvent \<Rightarrow> AccEvent" where
  "packedRemove r = r\<lparr>mEventRule := eDoNotEmit\<rparr>"

definition packingAdd :: "AccEvent \<Rightarrow> nat \<Rightarrow> AccEvent" where
  "packingAdd a i =
     a\<lparr>mEventType := EVENT_SELECTION, mPreceedingCount := 1, mPackedEvent := Some i\<rparr>"

text \<open>The queue after an add, a remove and an add for three items of one widget.\<close>

definition addRemoveAddQueue :: EventQueue where
  "addRemoveAddQueue =
     \<lparr>mEvents = [selChangeEvent 9 1 eSelectionAdd,
                 (selChangeEvent 9 2 eSelectionRemove)\<lparr>mPreceedingCount := 1\<rparr>,
                 (selChangeEvent 9 3 eSelectionAdd)\<lparr>mPreceedingCount := 1\<rparr>],
      mFocusEvent = None, mDocument = 1\<rparr>"


text \<open>A leaf \<open>1\<close> with a name dependent, under a parent \<open>2\<close> whose name does not come from
  its subtree, under a document \<open>3\<close> whose name does.\<close>

definition threeLevelTree :: Tree where
  "threeLevelTree =
     \<lparr>HasNameRule_eNameFromSubtreeRule = (\<lambda>a. a = 3),
      HasNameRule_eNameFromSubtreeIfReqRule = (\<lambda>a. a = 2 \<or> a = 3),
      HasNameDependent = (\<lambda>a. a = 1), HasDescriptionDependent = (\<lambda>_. False),
      IsHTMLFileInput = (\<lambda>_. False), Name = (\<lambda>_. (eNameFromSubtree, False)),
      RelationByType = (\<lambda>_ _. []), IsDoc = (\<lambda>a. a = 3),
      LocalParent = (\<lambda>a. if a = 1 then 2 else if a = 2 then 3 else 0),
      DefaultEventRule = eRemoveDupes, AutoDetectedUserInput = False\<rparr>"

text \<open>
  The walk of lines 123-181 from \<open>parent\<close> ends within \<open>n\<close> passes through the loop
  body: \<open>parent\<close> is a document (line 175), or the loop condition of lines 180-181 fails, or
  the walk from its parent ends within \<open>n - 1\<close> passes.
\<close>

primrec walkEnds :: "nat \<Rightarrow> Tree \<Rightarrow> LocalAccessible \<Rightarrow> bool" where
  "walkEnds 0 tree parent = False"
| "walkEnds (Suc n) tree parent =
     (IsDoc tree parent
      \<or> \<not> (LocalParent tree parent \<noteq> 0
             \<and> HasNameRule_eNameFromSubtreeIfReqRule tree (LocalParent tree parent))
      \<or> walkEnds n tree (LocalParent tree parent))"

text \<open>
  The accessibles \<open>as\<close> make up a document: the walk from each of them ends within
  \<open>h\<close> passes, and its parent and the targets of its relations are among them.
\<close>

definition documentOf :: "Tree \<Rightarrow> LocalAccessible list \<Rightarrow> nat \<Rightarrow> bool" where
  "documentOf tree as h =
     (\<forall>a \<in> set as.
        walkEnds h tree a
        \<and> (LocalParent tree a = 0 \<or> LocalParent tree a \<in> set as)
        \<and> set (RelationByType tree a LABEL_FOR) \<subseteq> set as
        \<and> set (RelationByType tree a DESCRIPTION_FOR) \<subseteq> set as)"

text \<open>An event that the propagation has created (lines 88 and 159-160) for one of the
  accessibles \<open>as\<close>.\<close>

definition propagatedEvent :: "Tree \<Rightarrow> LocalAccessible list \<Rightarrow> AccEvent \<Rightarrow> bool" where
  "propagatedEvent tree as x =
     ((mEventType x = EVENT_NAME_CHANGE \<or> mEventType x = EVENT_DESCRIPTION_CHANGE)
      \<and> mAccessible x \<in> set as \<and> x = NewAccEvent tree (mEventType x) (mAccessible x))"

text \<open>
  For the proof that the propagation ends. A name-change or description-change event for the
  accessible \<open>a\<close> is queued with the rule \<open>eRemoveDupes\<close>; the pairs of a type and an
  accessible for which none is queued yet; a queue that comes from another by appending events
  of the propagation, at most as many as there were pairs without a queued event; a queue that
  can take the events of all its pairs, of which there are at most \<open>n\<close>, without reaching
  \<open>2 ^ 32\<close> entries; and a \<open>PushEvent\<close> that returns, with such a queue, on every event
  of the propagation in a queue with at most \<open>n\<close> pairs.
\<close>

definition queuedEvent :: "AccEvent list \<Rightarrow> EventType \<Rightarrow> LocalAccessible \<Rightarrow> bool" where
  "queuedEvent evs t a =
     (\<exists>x \<in> set evs. mEventType x = t \<and> mEventRule x = eRemoveDupes \<and> mAccessible x = a)"

definition pending :: "LocalAccessible list \<Rightarrow> AccEvent list \<Rightarrow> (EventType \<times> LocalAccessible) set" where
  "pending as evs =
     {(t, a). (t = EVENT_NAME_CHANGE \<or> t = EVENT_DESCRIPTION_CHANGE) \<and> a \<in> set as
              \<and> \<not> queuedEvent evs t a}"

definition appended :: "Tree \<Rightarrow> LocalAccessible list \<Rightarrow> EventQueue \<Rightarrow> EventQueue \<Rightarrow> bool" where
  "appended tree as q q' =
     (\<exists>new. q' = q\<lparr>mEvents := mEvents q @ new\<rparr>
        \<and> (\<forall>x \<in> set new. propagatedEvent tree as x)
        \<and> length new + card (pending as (mEvents q @ new)) \<le> card (pending as (mEvents q)))"

definition roomFor :: "LocalAccessible list \<Rightarrow> EventQueue \<Rightarrow> nat \<Rightarrow> bool" where
  "roomFor as q n =
     (length (mEvents q) + card (pending as (mEvents q)) < 2 ^ 32
      \<and> card (pending as (mEvents q)) \<le> n)"

definition settling ::
  "Tree \<Rightarrow> LocalAccessible list \<Rightarrow> (EventQueue \<Rightarrow> AccEvent \<Rightarrow> (bool \<times> AccEvent) outcome) \<Rightarrow> nat \<Rightarrow> bool" where
  "settling tree as push n =
     (\<forall>q t a. (t = EVENT_NAME_CHANGE \<or> t = EVENT_DESCRIPTION_CHANGE) \<longrightarrow> a \<in> set as
        \<longrightarrow> length (mEvents q) + card (pending as (mEvents q)) < 2 ^ 32
        \<longrightarrow> card (pending as (mEvents q)) \<le> n
        \<longrightarrow> (\<exists>r q'. push q (NewAccEvent tree t a) = Some (Inr (r, q')) \<and> appended tree as q q'))"

text \<open>Two accessibles, each of them the label of the other.\<close>

definition cyclicLabelTree :: Tree where
  "cyclicLabelTree =
     quietTree\<lparr>HasNameDependent := (\<lambda>a. a = 1 \<or> a = 2),
                RelationByType := (\<lambda>a t. if t = LABEL_FOR \<and> a = 1 then [2]
                                         else if t = LABEL_FOR \<and> a = 2 then [1] else [])\<rparr>"

text \<open>Whether \<open>PushEvent\<close> drops the event at lines 55-56, and how many events of a sequence
  of pushes are dropped there.\<close>

definition droppedEarly :: "EventQueue \<Rightarrow> AccEvent \<Rightarrow> bool" where
  "droppedEarly q aEvent =
     (mEventType aEvent \<noteq> EVENT_FOCUS \<and> isDuplicate (mEvents q) aEvent = Inr True)"

primrec countDroppedEarly :: "nat \<Rightarrow> Tree \<Rightarrow> AccEvent list \<Rightarrow> EventQueue \<Rightarrow> nat" where
  "countDroppedEarly fuel tree [] q = 0"
| "countDroppedEarly fuel tree (aEvent # rest) q =
     (if droppedEarly q aEvent then 1 else 0)
     + (case PushEvent fuel tree q aEvent of
          Some (Inr (_, q')) \<Rightarrow> countDroppedEarly fuel tree rest q'
        | _ \<Rightarrow> 0)"

definition countFocus :: "AccEvent list \<Rightarrow> nat" where
  "countFocus es = length (filter (\<lambda>e. mEventType e = EVENT_FOCUS) es)"

text \<open>The number of events that a list of calls delivers.\<close>

definition deliveries :: "Call list \<Rightarrow> nat" where
  "deliveries cs = length (filter (\<lambda>c. deliveredEvent c \<noteq> None) cs)"

text \<open>
  Lines 63-74 with, in place of the recursive call, a \<open>PushEvent\<close> that never returns:
  this run returns only if the propagation does not call \<open>PushEvent\<close> (and the walk over
  the ancestors ends within \<open>fuel\<close> steps). A push makes the propagation push no further
  event if it is settled before the propagation (focus slot, duplicate) or this run returns; a
  sequence of pushes does, if each of them does in the queue that the pushes before it leave.
\<close>

definition pushesNoFurther :: "nat \<Rightarrow> Tree \<Rightarrow> EventQueue \<Rightarrow> AccEvent \<Rightarrow> bool" where
  "pushesNoFurther fuel tree q aEvent =
     (mEventType aEvent = EVENT_FOCUS \<or> isDuplicate (mEvents q) aEvent \<noteq> Inr False
      \<or> appendAndCoalesce fuel (\<lambda>q e. None) tree q aEvent \<noteq> None)"

primrec noFurtherPushes :: "nat \<Rightarrow> Tree \<Rightarrow> AccEvent list \<Rightarrow> EventQueue \<Rightarrow> bool" where
  "noFurtherPushes fuel tree [] q = True"
| "noFurtherPushes fuel tree (aEvent # rest) q =
     (pushesNoFurther fuel tree q aEvent
      \<and> (case PushEvent (Suc fuel) tree q aEvent of
           Some (Inr (_, q')) \<Rightarrow> noFurtherPushes fuel tree rest q'
         | _ \<Rightarrow> True))"

text \<open>A focus event; a selection-add event; and four pushes, the second a duplicate of the
  first, the third a focus event.\<close>

definition oneFocus :: "AccEvent list" where
  "oneFocus = [plainEvent EVENT_FOCUS eCoalesceOfSameType 5]"

definition oneSelectionAdd :: "AccEvent list" where
  "oneSelectionAdd = [selChangeEvent 9 1 eSelectionAdd]"

definition fourPushes :: "AccEvent list" where
  "fourPushes =
     [plainEvent EVENT_REORDER eRemoveDupes 2, plainEvent EVENT_REORDER eRemoveDupes 2,
      plainEvent EVENT_FOCUS eCoalesceOfSameType 5, selChangeEvent 9 1 eSelectionAdd]"

text \<open>One push of a text-removed event; and a tree in which the leaf \<open>1\<close> has a name
  dependent but no relation and no ancestor, so that the walk from it pushes nothing.\<close>

definition oneTextRemoved :: "AccEvent list" where
  "oneTextRemoved = [plainEvent EVENT_TEXT_REMOVED eAllowDupes 1]"

definition labelledLeafTree :: Tree where
  "labelledLeafTree = quietTree\<lparr>HasNameDependent := (\<lambda>a. a = 1)\<rparr>"













section \<open>The loops of the source and the scans agree\<close>

lemma unat_index: "i < 2 ^ 32 \<Longrightarrow> unat (word_of_nat i :: uint32) = i"
  by (simp add: unat_of_nat)

lemma unat_Length: "length evs < 2 ^ 32 \<Longrightarrow> unat (Length evs) = length evs"
  by (simp add: Length_def unat_index)

lemma ElementAt_index:
  "i < length evs \<Longrightarrow> length evs < 2 ^ 32 \<Longrightarrow> ElementAt evs (word_of_nat i) = Inr (evs ! i)"
  by (simp add: ElementAt_def Length_def word_less_nat_alt unat_index)

lemma index_less: "i < t \<Longrightarrow> t < 2 ^ 32 \<Longrightarrow> (word_of_nat i :: uint32) < word_of_nat t"
  by (simp add: word_less_nat_alt unat_index)

lemma index_le: "i \<le> t \<Longrightarrow> t < 2 ^ 32 \<Longrightarrow> (word_of_nat i :: uint32) \<le> word_of_nat t"
  by (simp add: word_le_nat_alt unat_index)

lemma index_pred: "(word_of_nat (Suc i) :: uint32) - 1 = word_of_nat i"
  by simp

lemma wrapped_not_less: "\<not> (0 - 1 :: uint32) < b"
  by simp

lemma wrapped_not_le: "unat (b :: uint32) < 2 ^ 32 - 1 \<Longrightarrow> \<not> (- 1 :: uint32) \<le> b"
  by (simp add: word_le_nat_alt unsigned_minus_1_eq_mask mask_eq_exp_minus_1)

lemma length_assign [simp]: "length (assign evs p f) = length evs"
  by (simp add: assign_def)

lemma packPreceding_scan:
  "n \<le> i \<Longrightarrow> i < length evs \<Longrightarrow> length evs < 2 ^ 32 \<Longrightarrow>
   packPreceding evs t (word_of_nat i) (word_of_nat n - 1) = Inr (packScan evs t n)"
proof (induction n arbitrary: evs)
  case 0
  then show ?case by (simp add: wrapped_not_less)
next
  case (Suc j)
  let ?evs' = "if mEventRule (evs ! j) = mEventRule (evs ! t) \<and> mWidget (evs ! j) = mWidget (evs ! t)
               then assign evs j (\<lambda>e. e\<lparr>mEventRule := eDoNotEmit\<rparr>) else evs"
  have len: "length ?evs' = length evs"
    by simp
  have lt: "(word_of_nat j :: uint32) < word_of_nat i"
    using Suc.prems by (intro index_less) auto
  have el: "ElementAt evs (word_of_nat j) = Inr (evs ! j)"
    using Suc.prems by (intro ElementAt_index) auto
  have uj: "unat (word_of_nat j :: uint32) = j"
    using Suc.prems by (intro unat_index) auto
  have "packPreceding evs t (word_of_nat i) (word_of_nat j)
        = packPreceding ?evs' t (word_of_nat i) (word_of_nat j - 1)"
    by (subst packPreceding.simps) (simp add: lt el uj del: packPreceding.simps cong: if_cong)
  also have "\<dots> = Inr (packScan ?evs' t j)"
    using Suc.prems len by (intro Suc.IH) auto
  finally show ?case
    by (simp del: packPreceding.simps split del: if_split)
qed

lemma coalesceOfSameType_scan:
  "n \<le> t \<Longrightarrow> t < length evs \<Longrightarrow> length evs < 2 ^ 32 \<Longrightarrow>
   coalesceOfSameType evs t (word_of_nat t) (word_of_nat n - 1) = Inr (sameTypeScan evs t n)"
proof (induction n)
  case 0
  then show ?case by (simp add: wrapped_not_less)
next
  case (Suc i)
  have lt: "(word_of_nat i :: uint32) < word_of_nat t"
    using Suc.prems by (intro index_less) auto
  have el: "ElementAt evs (word_of_nat i) = Inr (evs ! i)"
    using Suc.prems by (intro ElementAt_index) auto
  have ui: "unat (word_of_nat i :: uint32) = i"
    using Suc.prems by (intro unat_index) auto
  show ?case
    using Suc.prems lt el ui
    by (subst coalesceOfSameType.simps) (simp add: Suc.IH del: coalesceOfSameType.simps)
qed

lemma coalesceSelectionChange_scan:
  "n \<le> t \<Longrightarrow> t < length evs \<Longrightarrow> length evs < 2 ^ 32 \<Longrightarrow>
   coalesceSelectionChange evs t (word_of_nat t) (word_of_nat n - 1) = selChangeScan evs t n"
proof (induction n)
  case 0
  then show ?case by (simp add: wrapped_not_less)
next
  case (Suc i)
  have lt: "(word_of_nat i :: uint32) < word_of_nat t"
    using Suc.prems by (intro index_less) auto
  have el: "ElementAt evs (word_of_nat i) = Inr (evs ! i)"
    using Suc.prems by (intro ElementAt_index) auto
  have ui: "unat (word_of_nat i :: uint32) = i"
    using Suc.prems by (intro unat_index) auto
  show ?case
    using Suc.prems lt el ui
    by (subst coalesceSelectionChange.simps) (simp add: Suc.IH del: coalesceSelectionChange.simps)
qed

lemma coalesceStateChange_scan:
  "n \<le> t \<Longrightarrow> t < length evs \<Longrightarrow> length evs < 2 ^ 32 \<Longrightarrow>
   coalesceStateChange evs t (word_of_nat t) (word_of_nat n - 1) = Inr (stateChangeScan evs t n)"
proof (induction n arbitrary: evs)
  case 0
  then show ?case by (simp add: wrapped_not_less)
next
  case (Suc i)
  let ?evs' = "if mEventRule (evs ! i) \<noteq> eDoNotEmit \<and> mEventType (evs ! i) = mEventType (evs ! t)
           \<and> mAccessible (evs ! i) = mAccessible (evs ! t) \<and> mState (evs ! i) = mState (evs ! t)
        then let evs1 = assign evs i (\<lambda>e. e\<lparr>mEventRule := eDoNotEmit\<rparr>)
             in if mIsEnabled (evs1 ! i) \<noteq> mIsEnabled (evs1 ! t)
                then assign evs1 t (\<lambda>e. e\<lparr>mEventRule := eDoNotEmit\<rparr>) else evs1
        else evs"
  have len: "length ?evs' = length evs"
    by (simp add: Let_def)
  have lt: "(word_of_nat i :: uint32) < word_of_nat t"
    using Suc.prems by (intro index_less) auto
  have el: "ElementAt evs (word_of_nat i) = Inr (evs ! i)"
    using Suc.prems by (intro ElementAt_index) auto
  have ui: "unat (word_of_nat i :: uint32) = i"
    using Suc.prems by (intro unat_index) auto
  have "coalesceStateChange evs t (word_of_nat t) (word_of_nat i)
        = coalesceStateChange ?evs' t (word_of_nat t) (word_of_nat i - 1)"
    by (subst coalesceStateChange.simps)
       (simp add: lt el ui del: coalesceStateChange.simps cong: if_cong)
  also have "\<dots> = Inr (stateChangeScan ?evs' t i)"
    using Suc.prems len by (intro Suc.IH) auto
  finally show ?case
    by (simp del: coalesceStateChange.simps split del: if_split)
qed

lemma coalesceTextSelChange_scan:
  "n \<le> t \<Longrightarrow> t < length evs \<Longrightarrow> length evs < 2 ^ 32 \<Longrightarrow>
   coalesceTextSelChange evs t (word_of_nat t) (word_of_nat n - 1) = Inr (textSelScan evs t n)"
proof (induction n arbitrary: evs)
  case 0
  then show ?case by (simp add: wrapped_not_less)
next
  case (Suc i)
  let ?evs' = "if mEventRule (evs ! i) \<noteq> eDoNotEmit \<and> mEventType (evs ! i) = mEventType (evs ! t)
           \<and> (mSel (evs ! i) = mSel (evs ! t) \<or> mAccessible (evs ! i) = mAccessible (evs ! t))
        then assign evs i (\<lambda>e. e\<lparr>mEventRule := eDoNotEmit\<rparr>)
        else evs"
  have len: "length ?evs' = length evs"
    by simp
  have lt: "(word_of_nat i :: uint32) < word_of_nat t"
    using Suc.prems by (intro index_less) auto
  have el: "ElementAt evs (word_of_nat i) = Inr (evs ! i)"
    using Suc.prems by (intro ElementAt_index) auto
  have ui: "unat (word_of_nat i :: uint32) = i"
    using Suc.prems by (intro unat_index) auto
  have "coalesceTextSelChange evs t (word_of_nat t) (word_of_nat i)
        = coalesceTextSelChange ?evs' t (word_of_nat t) (word_of_nat i - 1)"
    by (subst coalesceTextSelChange.simps)
       (simp add: lt el ui del: coalesceTextSelChange.simps cong: if_cong)
  also have "\<dots> = Inr (textSelScan ?evs' t i)"
    using Suc.prems len by (intro Suc.IH) auto
  finally show ?case
    by (simp del: coalesceTextSelChange.simps split del: if_split)
qed

lemma unat_last_index:
  "evs \<noteq> [] \<Longrightarrow> length evs < 2 ^ 32 \<Longrightarrow> unat (Length evs - 1) = length evs - 1"
proof -
  assume a: "evs \<noteq> []" "length evs < 2 ^ 32"
  then have "unat (Length evs) = length evs"
    by (simp add: unat_Length)
  moreover from this a have "Length evs \<noteq> 0"
    by (auto simp: unat_eq_0 [symmetric] simp del: unat_eq_0)
  ultimately show ?thesis
    by (simp add: unat_minus_one)
qed

lemma last_index: "evs \<noteq> [] \<Longrightarrow> Length evs - 1 = word_of_nat (length evs - 1)"
  by (cases evs) (simp_all add: Length_def)

lemma hasDuplicate_scan:
  "n \<le> length evs \<Longrightarrow> length evs < 2 ^ 32 \<Longrightarrow> evs \<noteq> [] \<Longrightarrow>
   hasDuplicate evs a (Length evs - 1) (word_of_nat n - 1) = Inr (dupScan evs a n)"
proof (induction n)
  case 0
  have "unat (Length evs - 1) < 2 ^ 32 - 1"
    using 0 by (simp add: unat_last_index)
  then have "\<not> (- 1 :: uint32) \<le> Length evs - 1"
    by (rule wrapped_not_le)
  then show ?case by simp
next
  case (Suc i)
  have "unat (word_of_nat i :: uint32) \<le> unat (Length evs - 1)"
    using Suc.prems by (simp add: unat_last_index unat_index)
  then have le: "(word_of_nat i :: uint32) \<le> Length evs - 1"
    by (simp add: word_le_nat_alt)
  have el: "ElementAt evs (word_of_nat i) = Inr (evs ! i)"
    using Suc.prems by (intro ElementAt_index) auto
  have "hasDuplicate evs a (Length evs - 1) (word_of_nat i)
        = (if mEventType (evs ! i) = mEventType a \<and> mEventRule (evs ! i) = mEventRule a
               \<and> mAccessible (evs ! i) = mAccessible a
           then Inr True else hasDuplicate evs a (Length evs - 1) (word_of_nat i - 1))"
    by (subst hasDuplicate.simps) (simp add: le el del: hasDuplicate.simps)
  also have "\<dots> = Inr (dupScan evs a (Suc i))"
    using Suc.prems by (simp add: Suc.IH del: hasDuplicate.simps)
  finally show ?case
    by (simp del: hasDuplicate.simps)
qed

text \<open>What the scans compute.\<close>

lemma dupScan_iff:
  "dupScan evs a n \<longleftrightarrow>
     (\<exists>i<n. mEventType (evs ! i) = mEventType a \<and> mEventRule (evs ! i) = mEventRule a
             \<and> mAccessible (evs ! i) = mAccessible a)"
  by (induction n) (auto simp: less_Suc_eq)

lemma CoalesceEvents_scan:
  assumes "evs \<noteq> []" "length evs < 2 ^ 32"
  shows "CoalesceEvents evs =
     (let t = length evs - 1 in
      case mEventRule (evs ! t) of
        eCoalesceOfSameType \<Rightarrow> Inr (sameTypeScan evs t t)
      | eCoalesceSelectionChange \<Rightarrow> selChangeScan evs t t
      | eCoalesceStateChange \<Rightarrow> Inr (stateChangeScan evs t t)
      | eCoalesceTextSelChange \<Rightarrow> Inr (textSelScan evs t t)
      | _ \<Rightarrow> Inr evs)"
proof -
  let ?t = "length evs - 1"
  have t: "?t < length evs" "?t \<le> ?t"
    using assms by auto
  have tail: "Length evs - 1 = word_of_nat ?t"
    using assms by (simp add: last_index)
  have ut: "unat (word_of_nat ?t :: uint32) = ?t"
    using assms by (intro unat_index) auto
  have el: "ElementAt evs (word_of_nat ?t) = Inr (evs ! ?t)"
    using assms t by (intro ElementAt_index) auto
  show ?thesis
    unfolding CoalesceEvents_def Let_def tail el ut sum.case
    using coalesceOfSameType_scan [OF t(2) t(1) assms(2)]
          coalesceSelectionChange_scan [OF t(2) t(1) assms(2)]
          coalesceStateChange_scan [OF t(2) t(1) assms(2)]
          coalesceTextSelChange_scan [OF t(2) t(1) assms(2)]
    by (simp split: EEventRule.splits)
qed

lemma length_packScan [simp]: "length (packScan evs t n) = length evs"
  by (induction n arbitrary: evs) simp_all

lemma length_sameTypeScan [simp]: "length (sameTypeScan evs t n) = length evs"
  by (induction n) simp_all

lemma length_stateChangeScan [simp]: "length (stateChangeScan evs t n) = length evs"
  by (induction n arbitrary: evs) (simp_all add: Let_def)

lemma length_textSelScan [simp]: "length (textSelScan evs t n) = length evs"
  by (induction n arbitrary: evs) simp_all

lemma packPreceding_from:
  "i < length evs \<Longrightarrow> length evs < 2 ^ 32 \<Longrightarrow>
   packPreceding evs t (word_of_nat i) (word_of_nat i - 1) = Inr (packScan evs t i)"
  by (rule packPreceding_scan) auto

lemma CoalesceSelChangeEvents_length:
  assumes "i < length evs" "length evs < 2 ^ 32"
  shows "\<exists>evs'. CoalesceSelChangeEvents evs t i (word_of_nat i) = Inr evs' \<and> length evs' = length evs"
  using assms
  by (auto simp: CoalesceSelChangeEvents_def Let_def packPreceding_from
           simp del: packPreceding.simps split: option.splits)

lemma selChangeScan_length:
  "n \<le> length evs \<Longrightarrow> length evs < 2 ^ 32 \<Longrightarrow>
   \<exists>evs'. selChangeScan evs t n = Inr evs' \<and> length evs' = length evs"
  by (induction n) (auto simp: CoalesceSelChangeEvents_length)

lemma CoalesceEvents_length:
  assumes "evs \<noteq> []" "length evs < 2 ^ 32"
  shows "\<exists>evs'. CoalesceEvents evs = Inr evs' \<and> length evs' = length evs"
proof -
  have "\<exists>evs'. selChangeScan evs (length evs - 1) (length evs - 1) = Inr evs' \<and> length evs' = length evs"
    using assms by (intro selChangeScan_length) auto
  then show ?thesis
    unfolding CoalesceEvents_scan [OF assms] Let_def
    by (auto split: EEventRule.splits)
qed

lemma isDuplicate_scan:
  assumes "length evs < 2 ^ 32"
  shows "isDuplicate evs a =
     Inr (mEventRule a = eRemoveDupes \<and>
          (\<exists>i<length evs. mEventType (evs ! i) = mEventType a \<and> mEventRule (evs ! i) = mEventRule a
             \<and> mAccessible (evs ! i) = mAccessible a))"
proof (cases "evs = []")
  case True
  then show ?thesis by (simp add: isDuplicate_def Length_def)
next
  case False
  have "Length evs \<noteq> 0"
    using False assms unat_Length [OF assms] by auto
  moreover have "hasDuplicate evs a (Length evs - 1) (Length evs - 1) = Inr (dupScan evs a (length evs))"
    using hasDuplicate_scan [of "length evs" evs a, folded Length_def] False assms
    by (simp del: hasDuplicate.simps)
  ultimately show ?thesis
    by (simp add: isDuplicate_def dupScan_iff del: hasDuplicate.simps)
qed

section \<open>The backward scans stay inside the array\<close>

text \<open>
  Claim C10. Every backward scan over the queue reads only positions inside the array and
  comes to an end: the duplicate check of \<open>PushEvent\<close>, the scan of each rule of
  \<open>CoalesceEvents\<close> from the tail, and the scan of \<open>CoalesceSelChangeEvents\<close> from
  the matched entry \<open>this\<close>. All of them are total functions, and on a queue that is not
  empty (of less than \<open>2 ^ 32\<close> entries, as every \<open>nsTArray\<close> is) none of them ends in
  the crash of an index out of range; the tail or the matched entry may be at position
  \<open>0\<close>, where the index wraps.
\<close>

theorem scans_stay_in_bounds:
  assumes "evs \<noteq> []" and "length evs < 2 ^ 32" and "this < length evs"
  shows "(\<exists>dup. isDuplicate evs aEvent = Inr dup)
       \<and> (\<exists>evs'. CoalesceEvents evs = Inr evs')
       \<and> (\<exists>evs'. packPreceding evs (length evs - 1) (word_of_nat this) (word_of_nat this - 1)
                    = Inr evs')"
  using assms isDuplicate_scan [of evs aEvent] CoalesceEvents_length [of evs]
  by (auto simp: packPreceding_from simp del: packPreceding.simps)

theorem scans_stay_in_bounds_witness:
  "[selChangeEvent 9 1 eSelectionAdd] \<noteq> []
   \<and> length [selChangeEvent 9 1 eSelectionAdd] < 2 ^ 32
   \<and> 0 < length [selChangeEvent 9 1 eSelectionAdd]
   \<and> (\<exists>dup. isDuplicate [selChangeEvent 9 1 eSelectionAdd] (plainEvent EVENT_REORDER eRemoveDupes 1)
               = Inr dup)
   \<and> (\<exists>evs'. CoalesceEvents [selChangeEvent 9 1 eSelectionAdd] = Inr evs')
   \<and> (\<exists>evs'. packPreceding [selChangeEvent 9 1 eSelectionAdd] 0 0 (0 - 1) = Inr evs')"
  using scans_stay_in_bounds [of "[selChangeEvent 9 1 eSelectionAdd]" 0
          "plainEvent EVENT_REORDER eRemoveDupes 1"]
  by simp

section \<open>The scan for selection changes\<close>

lemma selChangeScan_none:
  "(\<forall>j<n. \<not> sameRuleAndWidget evs t j) \<Longrightarrow> selChangeScan evs t n = Inr evs"
  by (induction n) (auto simp: sameRuleAndWidget_def)

lemma selChangeScan_nearest:
  "i < n \<Longrightarrow> sameRuleAndWidget evs t i \<Longrightarrow> (\<forall>j. i < j \<and> j < n \<longrightarrow> \<not> sameRuleAndWidget evs t j)
   \<Longrightarrow> selChangeScan evs t n = CoalesceSelChangeEvents evs t i (word_of_nat i)"
proof (induction n)
  case 0
  then show ?case by simp
next
  case (Suc n)
  show ?case
  proof (cases "i = n")
    case True
    with Suc.prems show ?thesis by (simp add: sameRuleAndWidget_def)
  next
    case False
    with Suc.prems have less: "i < n" and differs: "\<not> sameRuleAndWidget evs t n"
      and between: "\<forall>j. i < j \<and> j < n \<longrightarrow> \<not> sameRuleAndWidget evs t j"
      by auto
    have "selChangeScan evs t n = CoalesceSelChangeEvents evs t i (word_of_nat i)"
      by (rule Suc.IH [OF less Suc.prems(2) between])
    with differs show ?thesis
      by (auto simp: sameRuleAndWidget_def)
  qed
qed

text \<open>
  Claim C5, as amended. When the tail has rule \<open>eCoalesceSelectionChange\<close>, the scan
  looks for the nearest earlier entry that shares the rule and belongs to the same widget. It
  goes past entries that share the rule but belong to another widget. If there is such an
  entry, at position \<open>i\<close>, the tail and that entry are handed to
  \<open>CoalesceSelChangeEvents\<close> and the pass stops; if there is none, the pass changes
  nothing.
\<close>

theorem selection_scan_nearest_same_widget:
  assumes "evs \<noteq> []" and "length evs < 2 ^ 32"
    and "mEventRule (last evs) = eCoalesceSelectionChange"
  shows "(i < length evs - 1 \<and> sameRuleAndWidget evs (length evs - 1) i
          \<and> (\<forall>j. i < j \<and> j < length evs - 1 \<longrightarrow> \<not> sameRuleAndWidget evs (length evs - 1) j)
          \<longrightarrow> CoalesceEvents evs = CoalesceSelChangeEvents evs (length evs - 1) i (word_of_nat i))
       \<and> ((\<forall>j < length evs - 1. \<not> sameRuleAndWidget evs (length evs - 1) j)
          \<longrightarrow> CoalesceEvents evs = Inr evs)"
proof -
  have "mEventRule (evs ! (length evs - 1)) = eCoalesceSelectionChange"
    using assms by (simp add: last_conv_nth)
  then have "CoalesceEvents evs = selChangeScan evs (length evs - 1) (length evs - 1)"
    using assms by (simp add: CoalesceEvents_scan Let_def)
  then show ?thesis
    by (auto simp: selChangeScan_none selChangeScan_nearest)
qed

text \<open>
  Claim C5 as stated fails: in \<open>threeSelections\<close> the first earlier entry that shares
  the rule of the tail belongs to another widget, and yet the pass is not a no-op: it goes on
  to the entry at position \<open>0\<close> and merges the tail with it.
\<close>

theorem selection_scan_first_same_rule_counterexample:
  "mEventRule (threeSelections ! 2) = eCoalesceSelectionChange
   \<and> mEventRule (threeSelections ! 1) = mEventRule (threeSelections ! 2)
   \<and> mWidget (threeSelections ! 1) \<noteq> mWidget (threeSelections ! 2)
   \<and> CoalesceEvents threeSelections \<noteq> Inr threeSelections
   \<and> CoalesceEvents threeSelections =
       Inr [(selChangeEvent 9 1 eSelectionAdd)\<lparr>mEventType := EVENT_SELECTION, mPackedEvent := Some 2\<rparr>,
            selChangeEvent 8 2 eSelectionAdd,
            (selChangeEvent 9 3 eSelectionRemove)\<lparr>mEventRule := eDoNotEmit, mPreceedingCount := 1\<rparr>]"
  by code_simp

theorem selection_scan_nearest_same_widget_witness:
  "threeSelections \<noteq> [] \<and> length threeSelections < 2 ^ 32
   \<and> mEventRule (last threeSelections) = eCoalesceSelectionChange
   \<and> 0 < length threeSelections - 1 \<and> sameRuleAndWidget threeSelections 2 0
   \<and> \<not> sameRuleAndWidget threeSelections 2 1
   \<and> CoalesceEvents threeSelections = CoalesceSelChangeEvents threeSelections 2 0 0
   \<and> \<not> sameRuleAndWidget (take 2 threeSelections) 1 0
   \<and> CoalesceEvents (take 2 threeSelections) = Inr (take 2 threeSelections)"
proof -
  have a: "threeSelections \<noteq> []" "length threeSelections < 2 ^ 32"
    "mEventRule (last threeSelections) = eCoalesceSelectionChange"
    by (simp_all add: threeSelections_def selChangeEvent_def plainEvent_def)
  have b: "length threeSelections - 1 = 2"
    by (simp add: threeSelections_def)
  have c: "sameRuleAndWidget threeSelections 2 0" "\<not> sameRuleAndWidget threeSelections 2 1"
    by (simp_all add: sameRuleAndWidget_def threeSelections_def selChangeEvent_def plainEvent_def)
  have d: "\<forall>j. 0 < j \<and> j < 2 \<longrightarrow> \<not> sameRuleAndWidget threeSelections 2 j"
    using c(2) by (auto simp: less_Suc_eq numeral_2_eq_2)
  have a2: "take 2 threeSelections \<noteq> []" "length (take 2 threeSelections) < 2 ^ 32"
    "mEventRule (last (take 2 threeSelections)) = eCoalesceSelectionChange"
    by (simp_all add: threeSelections_def selChangeEvent_def plainEvent_def)
  have b2: "length (take 2 threeSelections) - 1 = 1"
    by (simp add: threeSelections_def)
  have c2: "\<not> sameRuleAndWidget (take 2 threeSelections) 1 0"
    by (simp add: sameRuleAndWidget_def threeSelections_def selChangeEvent_def plainEvent_def)
  have none: "CoalesceEvents (take 2 threeSelections) = Inr (take 2 threeSelections)"
    using selection_scan_nearest_same_widget [OF a2, of 0] b2 c2 by simp
  have nearest: "CoalesceEvents threeSelections = CoalesceSelChangeEvents threeSelections 2 0 0"
    using selection_scan_nearest_same_widget [OF a, of 0] a b c d by simp
  from a b c nearest c2 none show ?thesis
    by simp
qed

section \<open>The calls of a drain\<close>

lemma extends_refl: "extends collab st [] st"
  by (simp add: extends_def reactAll_def)

lemma extends_trans:
  "extends collab st a st1 \<Longrightarrow> extends collab st1 b st2 \<Longrightarrow> extends collab st (a @ b) st2"
  by (simp add: extends_def reactAll_def)

lemma extends_invoke: "extends collab st [c] (invoke collab c st)"
  by (simp add: extends_def reactAll_def invoke_def Let_def)

lemma extends_collect: "extends collab st [] (collectSelectChange collab event st)"
  by (simp add: extends_def reactAll_def collectSelectChange_def Let_def)

lemma extends_invoke2:
  "extends collab st [c, d] (invoke collab d (invoke collab c st))"
  using extends_trans [OF extends_invoke extends_invoke] by simp

lemma extends_fireSelectedState:
  "extends collab st (selectedStateCalls events event) (fireSelectedState collab events event st)"
  unfolding fireSelectedState_def selectedStateCalls_def Let_def
  by (auto intro: extends_refl extends_invoke extends_invoke2 split: option.splits)

lemma deliveredEvent_selectedStateCalls:
  "c \<in> set (selectedStateCalls events event) \<Longrightarrow> deliveredEvent c = None"
  by (auto simp: selectedStateCalls_def deliveredEvent_def split: if_splits option.splits)

lemma extends_processEvent:
  "\<exists>new. extends collab st new (fst (processEvent collab events event st))
     \<and> eventCalls events event new"
proof -
  let ?st1 = "collectSelectChange collab event st"
  let ?st2 = "fireSelectedState collab events event ?st1"
  let ?st3 = "invoke collab (FireEvent event) ?st2"
  have e1: "extends collab st [] ?st1"
    by (rule extends_collect)
  have e2: "extends collab st (selectedStateCalls events event) ?st2"
    using extends_trans [OF e1 extends_fireSelectedState] by simp
  have e3: "extends collab st (selectedStateCalls events event @ [FireEvent event]) ?st3"
    by (rule extends_trans [OF e2 extends_invoke])
  have e4: "extends collab st (selectedStateCalls events event @ [FireEvent event, SendQueuedMutationEvents])
              (invoke collab SendQueuedMutationEvents ?st3)"
    using extends_trans [OF e3 extends_invoke] by simp
  have e5: "extends collab st [ProcessTextSelChangeEvent event]
              (invoke collab (ProcessTextSelChangeEvent event) ?st1)"
    using extends_trans [OF e1 extends_invoke] by simp
  show ?thesis
    unfolding processEvent_def Let_def eventCalls_def
    using extends_refl [of collab st] e1 e3 e4 e5
    by (auto split: if_splits)
qed

lemma extends_processEvents:
  "\<exists>news. length news \<le> length rest
     \<and> list_all2 (eventCalls events) (take (length news) rest) news
     \<and> extends collab st (concat news) (fst (processEvents collab events rest st))"
proof (induction rest arbitrary: st)
  case Nil
  show ?case
    by (rule exI [of _ "[]"]) (simp add: extends_refl)
next
  case (Cons event rest)
  obtain new where new: "extends collab st new (fst (processEvent collab events event st))"
    "eventCalls events event new"
    using extends_processEvent by blast
  show ?case
  proof (cases "snd (processEvent collab events event st)")
    case True
    with new show ?thesis
      by (intro exI [of _ "[new]"]) (simp add: Let_def)
  next
    case False
    obtain news where news: "length news \<le> length rest"
      "list_all2 (eventCalls events) (take (length news) rest) news"
      "extends collab (fst (processEvent collab events event st)) (concat news)
         (fst (processEvents collab events rest (fst (processEvent collab events event st))))"
      using Cons.IH by blast
    from False new news show ?thesis
      by (intro exI [of _ "new # news"]) (simp add: Let_def extends_trans)
  qed
qed

lemma extends_processFocus:
  assumes "world st = w" and "mFocusEvent (queue st) = focus"
  shows "\<exists>focusCalls.
     extends collab (st\<lparr>queue := (queue st)\<lparr>mFocusEvent := None\<rparr>\<rparr>) focusCalls (processFocus collab st)
     \<and> (case focus of
           None \<Rightarrow> focusCalls = []
         | Some f \<Rightarrow> focusCalls = (if IsDefunct collab w (mAccessible f) then []
                                    else [ProcessFocusEvent f]))"
proof (cases focus)
  case None
  with assms have none: "mFocusEvent (queue st) = None"
    by simp
  then have "(queue st)\<lparr>mFocusEvent := None\<rparr> = queue st"
    by (cases "queue st") simp
  with None none show ?thesis
    by (simp add: processFocus_def extends_def reactAll_def)
next
  case (Some f)
  with assms have "mFocusEvent (queue st) = Some f"
    by simp
  with Some assms(1) show ?thesis
    by (auto simp: processFocus_def Let_def intro: extends_refl extends_invoke)
qed

text \<open>The shape of a drain: the focus event if there is one and its target is alive, then the
  calls of a prefix of the detached entries, entry by entry, then possibly the report of the
  selection changes. At the end, the world and the live queue are what the collaborators made
  of the world and of the emptied queue.\<close>

lemma drain_shape:
  "\<exists>focusCalls news final.
     calls (ProcessEventQueue collab w q) = focusCalls @ concat news @ final
     \<and> (world (ProcessEventQueue collab w q), queue (ProcessEventQueue collab w q))
         = reactAll collab (calls (ProcessEventQueue collab w q))
             (w, q\<lparr>mEvents := [], mFocusEvent := None\<rparr>)
     \<and> (case mFocusEvent q of
           None \<Rightarrow> focusCalls = []
         | Some f \<Rightarrow> focusCalls = (if IsDefunct collab w (mAccessible f) then []
                                    else [ProcessFocusEvent f]))
     \<and> length news \<le> length (mEvents q)
     \<and> list_all2 (eventCalls (mEvents q)) (take (length news) (mEvents q)) news
     \<and> (final = [] \<or> (\<exists>a b. final = [SendSelectedAccessiblesChanged a b]))"
proof -
  let ?st0 = "\<lparr>world = w, queue = q\<lparr>mEvents := []\<rparr>, selectedIDs = [], unselectedIDs = [],
               calls = []\<rparr>"
  let ?start = "\<lparr>world = w, queue = q\<lparr>mEvents := [], mFocusEvent := None\<rparr>, selectedIDs = [],
                 unselectedIDs = [], calls = []\<rparr>"
  let ?st1 = "processFocus collab ?st0"
  let ?r = "processEvents collab (mEvents q) (mEvents q) ?st1"
  have "\<exists>focusCalls. extends collab ?start focusCalls ?st1
     \<and> (case mFocusEvent q of
           None \<Rightarrow> focusCalls = []
         | Some f \<Rightarrow> focusCalls = (if IsDefunct collab w (mAccessible f) then []
                                    else [ProcessFocusEvent f]))"
    using extends_processFocus [of ?st0 w "mFocusEvent q" collab] by simp
  then obtain focusCalls where f: "extends collab ?start focusCalls ?st1"
    "case mFocusEvent q of
       None \<Rightarrow> focusCalls = []
     | Some f \<Rightarrow> focusCalls = (if IsDefunct collab w (mAccessible f) then []
                                else [ProcessFocusEvent f])"
    by blast
  obtain news where n: "length news \<le> length (mEvents q)"
    "list_all2 (eventCalls (mEvents q)) (take (length news) (mEvents q)) news"
    "extends collab ?st1 (concat news) (fst ?r)"
    using extends_processEvents by blast
  have loop: "extends collab ?start (focusCalls @ concat news) (fst ?r)"
    by (rule extends_trans [OF f(1) n(3)])
  have "ProcessEventQueue collab w q = fst ?r
      \<or> (\<exists>a b. ProcessEventQueue collab w q
                  = invoke collab (SendSelectedAccessiblesChanged a b) (fst ?r))"
    unfolding ProcessEventQueue_def Let_def by auto
  then obtain final where fin: "extends collab (fst ?r) final (ProcessEventQueue collab w q)"
    "final = [] \<or> (\<exists>a b. final = [SendSelectedAccessiblesChanged a b])"
    using extends_refl [of collab "fst ?r"] extends_invoke [of collab "fst ?r"]
    by metis
  have "extends collab ?start (focusCalls @ concat news @ final) (ProcessEventQueue collab w q)"
    using extends_trans [OF loop fin(1)] by simp
  then have "calls (ProcessEventQueue collab w q) = focusCalls @ concat news @ final"
    "(world (ProcessEventQueue collab w q), queue (ProcessEventQueue collab w q))
       = reactAll collab (focusCalls @ concat news @ final) (w, q\<lparr>mEvents := [], mFocusEvent := None\<rparr>)"
    by (simp_all add: extends_def)
  with f(2) n(1,2) fin(2) show ?thesis
    by (intro exI [of _ focusCalls] exI [of _ news] exI [of _ final]) simp
qed

text \<open>The same, turn by turn: every detached entry has its turn, in order, unless the
  document is detached during a \<open>FireEvent\<close> call; the drain then returns at once.\<close>

lemma reactAll_append:
  "reactAll collab (a @ b) wq = reactAll collab b (reactAll collab a wq)"
  by (simp add: reactAll_def)

lemma extends_state:
  "extends collab st new st' \<Longrightarrow>
   (world st', queue st') = reactAll collab new (world st, queue st)"
  by (simp add: extends_def)

lemma processEvent_turn:
  "\<exists>new. extends collab st new (fst (processEvent collab events event st))
     \<and> turnCalls collab events event (world st) new
     \<and> (snd (processEvent collab events event st) \<longrightarrow>
          new \<noteq> [] \<and> last new = FireEvent event
          \<and> mDocument (queue (fst (processEvent collab events event st))) = 0)"
proof -
  let ?st1 = "collectSelectChange collab event st"
  let ?st2 = "fireSelectedState collab events event ?st1"
  let ?st3 = "invoke collab (FireEvent event) ?st2"
  have e1: "extends collab st [] ?st1"
    by (rule extends_collect)
  have e2: "extends collab st (selectedStateCalls events event) ?st2"
    using extends_trans [OF e1 extends_fireSelectedState] by simp
  have e3: "extends collab st (selectedStateCalls events event @ [FireEvent event]) ?st3"
    by (rule extends_trans [OF e2 extends_invoke])
  have e4: "extends collab st (selectedStateCalls events event @ [FireEvent event, SendQueuedMutationEvents])
              (invoke collab SendQueuedMutationEvents ?st3)"
    using extends_trans [OF e3 extends_invoke] by simp
  have e5: "extends collab st [ProcessTextSelChangeEvent event]
              (invoke collab (ProcessTextSelChangeEvent event) ?st1)"
    using extends_trans [OF e1 extends_invoke] by simp
  have w1: "world ?st1 = world st"
    by (simp add: collectSelectChange_def Let_def)
  show ?thesis
    unfolding processEvent_def Let_def turnCalls_def w1
    using extends_refl [of collab st] e1 e3 e4 e5
    by (auto split: if_splits)
qed

lemma processEvents_turns:
  "\<exists>news. length news \<le> length rest
     \<and> (\<forall>k<length news. turnCalls collab events (rest ! k)
            (fst (reactAll collab (concat (take k news)) (world st, queue st))) (news ! k))
     \<and> extends collab st (concat news) (fst (processEvents collab events rest st))
     \<and> (if snd (processEvents collab events rest st)
         then news \<noteq> [] \<and> concat news \<noteq> []
              \<and> last (concat news) = FireEvent (rest ! (length news - 1))
              \<and> mDocument (queue (fst (processEvents collab events rest st))) = 0
         else length news = length rest)"
proof (induction rest arbitrary: st)
  case Nil
  show ?case
    by (rule exI [of _ "[]"]) (simp add: extends_refl)
next
  case (Cons event rest)
  let ?r = "processEvent collab events event st"
  obtain new where new: "extends collab st new (fst ?r)"
    "turnCalls collab events event (world st) new"
    "snd ?r \<longrightarrow> new \<noteq> [] \<and> last new = FireEvent event \<and> mDocument (queue (fst ?r)) = 0"
    using processEvent_turn by blast
  show ?case
  proof (cases "snd ?r")
    case True
    with new show ?thesis
      by (intro exI [of _ "[new]"]) (simp add: Let_def reactAll_def)
  next
    case False
    let ?rs = "processEvents collab events rest (fst ?r)"
    obtain news where news: "length news \<le> length rest"
      "\<forall>k<length news. turnCalls collab events (rest ! k)
            (fst (reactAll collab (concat (take k news)) (world (fst ?r), queue (fst ?r)))) (news ! k)"
      "extends collab (fst ?r) (concat news) (fst ?rs)"
      "if snd ?rs
       then news \<noteq> [] \<and> concat news \<noteq> []
            \<and> last (concat news) = FireEvent (rest ! (length news - 1))
            \<and> mDocument (queue (fst ?rs)) = 0
       else length news = length rest"
      using Cons.IH by blast
    have same: "processEvents collab events (event # rest) st = ?rs"
      using False by (simp add: Let_def)
    have state: "(world (fst ?r), queue (fst ?r)) = reactAll collab new (world st, queue st)"
      using new(1) by (rule extends_state)
    have turns: "turnCalls collab events ((event # rest) ! k)
            (fst (reactAll collab (concat (take k (new # news))) (world st, queue st)))
            ((new # news) ! k)" if "k < length (new # news)" for k
    proof (cases k)
      case 0
      with new(2) show ?thesis by (simp add: reactAll_def)
    next
      case (Suc j)
      with that have "j < length news" by simp
      with news(2) have "turnCalls collab events (rest ! j)
            (fst (reactAll collab (concat (take j news)) (world (fst ?r), queue (fst ?r)))) (news ! j)"
        by blast
      then show ?thesis
        unfolding Suc state by (simp add: reactAll_append)
    qed
    have ext: "extends collab st (concat (new # news)) (fst ?rs)"
      using extends_trans [OF new(1) news(3)] by simp
    have fin: "if snd ?rs
       then new # news \<noteq> [] \<and> concat (new # news) \<noteq> []
            \<and> last (concat (new # news)) = FireEvent ((event # rest) ! (length (new # news) - 1))
            \<and> mDocument (queue (fst ?rs)) = 0
       else length (new # news) = length (event # rest)"
    proof (cases "snd ?rs")
      case True
      with news(4) have n: "news \<noteq> []" "concat news \<noteq> []"
        "last (concat news) = FireEvent (rest ! (length news - 1))"
        "mDocument (queue (fst ?rs)) = 0"
        by simp_all
      from n(1) have "(event # rest) ! (length (new # news) - 1) = rest ! (length news - 1)"
        by (cases news) simp_all
      with True n show ?thesis by simp
    next
      case False
      with news(4) show ?thesis by simp
    qed
    show ?thesis
      unfolding same
      using news(1) turns ext fin
      by (intro exI [of _ "new # news"]) (simp del: concat.simps nth_Cons_Suc take_Suc_Cons)
  qed
qed


lemma drain_turns:
  "\<exists>focusCalls news final.
     calls (ProcessEventQueue collab w q) = focusCalls @ concat news @ final
     \<and> focusCalls = (case mFocusEvent q of
                       None \<Rightarrow> []
                     | Some f \<Rightarrow> if IsDefunct collab w (mAccessible f) then []
                                else [ProcessFocusEvent f])
     \<and> length news \<le> length (mEvents q)
     \<and> (\<forall>k<length news. turnCalls collab (mEvents q) (mEvents q ! k)
            (fst (reactAll collab (focusCalls @ concat (take k news))
                    (w, q\<lparr>mEvents := [], mFocusEvent := None\<rparr>))) (news ! k))
     \<and> (length news = length (mEvents q)
         \<or> (concat news \<noteq> [] \<and> final = []
             \<and> last (concat news) = FireEvent (mEvents q ! (length news - 1))
             \<and> mDocument (queue (ProcessEventQueue collab w q)) = 0))
     \<and> (final = [] \<or> (\<exists>a b. final = [SendSelectedAccessiblesChanged a b]))
     \<and> (world (ProcessEventQueue collab w q), queue (ProcessEventQueue collab w q))
         = reactAll collab (calls (ProcessEventQueue collab w q))
             (w, q\<lparr>mEvents := [], mFocusEvent := None\<rparr>)"
proof -
  let ?st0 = "\<lparr>world = w, queue = q\<lparr>mEvents := []\<rparr>, selectedIDs = [], unselectedIDs = [],
               calls = []\<rparr>"
  let ?start = "\<lparr>world = w, queue = q\<lparr>mEvents := [], mFocusEvent := None\<rparr>, selectedIDs = [],
                 unselectedIDs = [], calls = []\<rparr>"
  let ?st1 = "processFocus collab ?st0"
  let ?r = "processEvents collab (mEvents q) (mEvents q) ?st1"
  let ?D = "ProcessEventQueue collab w q"
  have "\<exists>focusCalls. extends collab ?start focusCalls ?st1
     \<and> (case mFocusEvent q of
           None \<Rightarrow> focusCalls = []
         | Some f \<Rightarrow> focusCalls = (if IsDefunct collab w (mAccessible f) then []
                                    else [ProcessFocusEvent f]))"
    using extends_processFocus [of ?st0 w "mFocusEvent q" collab] by simp
  then obtain focusCalls where f: "extends collab ?start focusCalls ?st1"
    "focusCalls = (case mFocusEvent q of
                       None \<Rightarrow> []
                     | Some f \<Rightarrow> if IsDefunct collab w (mAccessible f) then []
                                else [ProcessFocusEvent f])"
    by (auto split: option.splits)
  have st1: "(world ?st1, queue ?st1)
               = reactAll collab focusCalls (w, q\<lparr>mEvents := [], mFocusEvent := None\<rparr>)"
    using extends_state [OF f(1)] by simp
  obtain news where n: "length news \<le> length (mEvents q)"
    "\<forall>k<length news. turnCalls collab (mEvents q) (mEvents q ! k)
            (fst (reactAll collab (concat (take k news)) (world ?st1, queue ?st1))) (news ! k)"
    "extends collab ?st1 (concat news) (fst ?r)"
    "if snd ?r
     then news \<noteq> [] \<and> concat news \<noteq> []
          \<and> last (concat news) = FireEvent (mEvents q ! (length news - 1))
          \<and> mDocument (queue (fst ?r)) = 0
     else length news = length (mEvents q)"
    using processEvents_turns [of "mEvents q" collab "mEvents q" ?st1] by blast
  have turns: "\<forall>k<length news. turnCalls collab (mEvents q) (mEvents q ! k)
            (fst (reactAll collab (focusCalls @ concat (take k news))
                    (w, q\<lparr>mEvents := [], mFocusEvent := None\<rparr>))) (news ! k)"
    using n(2) unfolding st1 by (simp add: reactAll_append)
  have loop: "extends collab ?start (focusCalls @ concat news) (fst ?r)"
    by (rule extends_trans [OF f(1) n(3)])
  show ?thesis
  proof (cases "snd ?r")
    case True
    then have D: "?D = fst ?r"
      by (simp add: ProcessEventQueue_def Let_def)
    from True n(4) have cut: "concat news \<noteq> []"
      "last (concat news) = FireEvent (mEvents q ! (length news - 1))"
      "mDocument (queue ?D) = 0"
      unfolding D by simp_all
    from loop have "calls ?D = focusCalls @ concat news @ []"
      "(world ?D, queue ?D) = reactAll collab (calls ?D) (w, q\<lparr>mEvents := [], mFocusEvent := None\<rparr>)"
      unfolding D by (simp_all add: extends_def)
    with f(2) n(1) turns cut show ?thesis
      by (intro exI [of _ focusCalls] exI [of _ news] exI [of _ "[]"]) simp
  next
    case False
    with n(4) have all: "length news = length (mEvents q)"
      by simp
    have "?D = fst ?r
      \<or> (\<exists>a b. ?D = invoke collab (SendSelectedAccessiblesChanged a b) (fst ?r))"
      unfolding ProcessEventQueue_def Let_def by auto
    then obtain final where fin: "extends collab (fst ?r) final ?D"
      "final = [] \<or> (\<exists>a b. final = [SendSelectedAccessiblesChanged a b])"
      using extends_refl [of collab "fst ?r"] extends_invoke [of collab "fst ?r"]
      by metis
    have "extends collab ?start (focusCalls @ concat news @ final) ?D"
      using extends_trans [OF loop fin(1)] by simp
    then have "calls ?D = focusCalls @ concat news @ final"
      "(world ?D, queue ?D) = reactAll collab (calls ?D) (w, q\<lparr>mEvents := [], mFocusEvent := None\<rparr>)"
      by (simp_all add: extends_def)
    with f(2) n(1) turns all fin(2) show ?thesis
      by (intro exI [of _ focusCalls] exI [of _ news] exI [of _ final]) simp
  qed
qed

section \<open>What a push does to the queue\<close>

lemma packPreceding_length:
  "packPreceding evs t bound j = Inr evs' \<Longrightarrow> length evs' = length evs"
proof (induction evs t bound j rule: packPreceding.induct)
  case (1 evs t bound j)
  from "1.prems" show ?case
    by (subst (asm) packPreceding.simps)
       (auto simp del: packPreceding.simps split: if_splits sum.splits dest!: "1.IH")
qed

lemma CoalesceSelChangeEvents_same_length:
  "CoalesceSelChangeEvents evs t i bound = Inr evs' \<Longrightarrow> length evs' = length evs"
  by (auto simp: CoalesceSelChangeEvents_def Let_def simp del: packPreceding.simps
           split: if_splits option.splits dest!: packPreceding_length)

lemma coalesceOfSameType_length:
  "coalesceOfSameType evs t bound j = Inr evs' \<Longrightarrow> length evs' = length evs"
proof (induction evs t bound j rule: coalesceOfSameType.induct)
  case (1 evs t bound j)
  from "1.prems" show ?case
    by (subst (asm) coalesceOfSameType.simps)
       (auto simp del: coalesceOfSameType.simps split: if_splits sum.splits dest!: "1.IH")
qed

lemma coalesceSelectionChange_length:
  "coalesceSelectionChange evs t bound j = Inr evs' \<Longrightarrow> length evs' = length evs"
proof (induction evs t bound j rule: coalesceSelectionChange.induct)
  case (1 evs t bound j)
  from "1.prems" show ?case
    by (subst (asm) coalesceSelectionChange.simps)
       (auto simp del: coalesceSelectionChange.simps split: if_splits sum.splits
             dest!: "1.IH" CoalesceSelChangeEvents_same_length)
qed

lemma coalesceStateChange_length:
  "coalesceStateChange evs t bound j = Inr evs' \<Longrightarrow> length evs' = length evs"
proof (induction evs t bound j rule: coalesceStateChange.induct)
  case (1 evs t bound j)
  from "1.prems" show ?case
    by (subst (asm) coalesceStateChange.simps)
       (auto simp add: Let_def simp del: coalesceStateChange.simps split: if_splits sum.splits dest!: "1.IH")
qed

lemma coalesceTextSelChange_length:
  "coalesceTextSelChange evs t bound j = Inr evs' \<Longrightarrow> length evs' = length evs"
proof (induction evs t bound j rule: coalesceTextSelChange.induct)
  case (1 evs t bound j)
  from "1.prems" show ?case
    by (subst (asm) coalesceTextSelChange.simps)
       (auto simp del: coalesceTextSelChange.simps split: if_splits sum.splits dest!: "1.IH")
qed

lemma CoalesceEvents_same_length:
  "CoalesceEvents evs = Inr evs' \<Longrightarrow> length evs' = length evs"
  unfolding CoalesceEvents_def Let_def
  by (auto split: sum.splits EEventRule.splits
           simp del: coalesceOfSameType.simps coalesceSelectionChange.simps
                     coalesceStateChange.simps coalesceTextSelChange.simps
           dest: coalesceOfSameType_length coalesceSelectionChange_length
                 coalesceStateChange_length coalesceTextSelChange_length)

lemma pushGrowsD:
  "pushGrows push \<Longrightarrow> mEventType e \<noteq> EVENT_FOCUS \<Longrightarrow> push q e = Some (Inr (r, q'))
   \<Longrightarrow> grows q q'"
  unfolding pushGrows_def by blast

lemma grows_refl [simp]: "grows q q"
  by (simp add: grows_def)

lemma grows_trans: "grows a b \<Longrightarrow> grows b c \<Longrightarrow> grows a c"
  by (auto simp: grows_def)

lemma andThen_Some:
  "andThen m f = Some (Inr (r, q')) \<longleftrightarrow> (\<exists>r1 q1. m = Some (Inr (r1, q1)) \<and> f r1 q1 = Some (Inr (r, q')))"
  by (auto simp: andThen_def split: option.splits sum.splits)

lemma mEventType_NewAccEvent [simp]: "mEventType (NewAccEvent tree t a) = t"
  by (simp add: NewAccEvent_def)

lemma relations_grow:
  assumes "pushGrows push" and "eventType \<noteq> EVENT_FOCUS"
  shows "PushNameOrDescriptionChangeToRelations push tree eventType rel pushed q = Some (Inr (r, q'))
         \<Longrightarrow> grows q q'"
proof (induction rel arbitrary: pushed q)
  case Nil
  then show ?case by simp
next
  case (Cons relTarget rel)
  from Cons.prems obtain r1 q1 where
    one: "push q (NewAccEvent tree eventType relTarget) = Some (Inr (r1, q1))" and
    two: "PushNameOrDescriptionChangeToRelations push tree eventType rel (pushed \<or> fst r1) q1
            = Some (Inr (r, q'))"
    by (auto simp: andThen_Some)
  have "grows q q1"
    using assms(1) _ one by (rule pushGrowsD) (simp add: assms(2))
  moreover have "grows q1 q'"
    using two by (rule Cons.IH)
  ultimately show ?case by (rule grows_trans)
qed

lemma walkName_grows:
  assumes "pushGrows push"
    and "walkName push tree target maybe pushed check parent q = Some (Inr (r, q'))"
  shows "grows q q'"
proof -
  from assms(2) obtain pc q1 r2 where
    one: "(if nameCheckApplies tree check maybe target parent then
             andThen
               (if fireNameChange tree parent
                then andThen (push q (NewAccEvent tree EVENT_NAME_CHANGE parent))
                       (\<lambda>r q'. Some (Inr (pushed \<or> fst r, q')))
                else Some (Inr (pushed, q)))
               (\<lambda>pushed1 q1. Some (Inr ((pushed1, False), q1)))
           else Some (Inr ((pushed, check), q))) = Some (Inr (pc, q1))" and
    two: "PushNameOrDescriptionChangeToRelations push tree (relationEventType LABEL_FOR)
            (RelationByType tree parent LABEL_FOR) False q1 = Some (Inr (r2, q'))"
    unfolding walkName_def by (auto simp: andThen_Some)
  have "grows q q1"
    using one pushGrowsD [OF assms(1), of "NewAccEvent tree EVENT_NAME_CHANGE parent" q]
    by (auto simp: andThen_Some split: if_splits)
  moreover have "grows q1 q'"
    by (rule relations_grow [OF assms(1) _ two]) (simp add: relationEventType_def)
  ultimately show ?thesis by (rule grows_trans)
qed

lemma walkBody_grows:
  assumes "pushGrows push"
    and "walkBody push tree target maybe doName doDesc pushed check parent q = Some (Inr (r, q'))"
  shows "grows q q'"
proof -
  from assms(2) obtain pc q2 where
    one: "(if doName then walkName push tree target maybe pushed check parent q
           else Some (Inr ((pushed, check), q))) = Some (Inr (pc, q2))" and
    two: "(if doDesc then
             andThen
               (PushNameOrDescriptionChangeToRelations push tree (relationEventType DESCRIPTION_FOR)
                  (RelationByType tree parent DESCRIPTION_FOR) False q2)
               (\<lambda>r q3. Some (Inr ((fst pc \<or> r, snd pc), q3)))
           else Some (Inr (pc, q2))) = Some (Inr (r, q'))"
    unfolding walkBody_def by (auto simp: andThen_Some)
  have "grows q q2"
    using one walkName_grows [OF assms(1)] by (auto split: if_splits)
  moreover have "grows q2 q'"
    using two relations_grow [OF assms(1), of "relationEventType DESCRIPTION_FOR"]
    by (auto simp: andThen_Some relationEventType_def split: if_splits)
  ultimately show ?thesis by (rule grows_trans)
qed

lemma walk_grows:
  assumes "pushGrows push"
  shows "walk fuel push tree target maybe doName doDesc pushed check parent q = Some (Inr (r, q'))
         \<Longrightarrow> grows q q'"
proof (induction fuel arbitrary: pushed check parent q)
  case 0
  then show ?case by simp
next
  case (Suc fuel)
  from Suc.prems obtain pc q1 where
    one: "walkBody push tree target maybe doName doDesc pushed check parent q = Some (Inr (pc, q1))" and
    two: "(if IsDoc tree parent then Some (Inr (fst pc, q1))
           else if LocalParent tree parent \<noteq> 0
                   \<and> HasNameRule_eNameFromSubtreeIfReqRule tree (LocalParent tree parent)
           then walk fuel push tree target maybe doName doDesc (fst pc) (snd pc)
                  (LocalParent tree parent) q1
           else Some (Inr (fst pc, q1))) = Some (Inr (r, q'))"
    by (auto simp: andThen_Some)
  have "grows q q1"
    using one by (rule walkBody_grows [OF assms])
  moreover have "grows q1 q'"
    using two Suc.IH by (auto split: if_splits)
  ultimately show ?case by (rule grows_trans)
qed

lemma PushNameOrDescriptionChange_grows:
  assumes "pushGrows push"
    and "PushNameOrDescriptionChange fuel push tree t target q = Some (Inr (r, q'))"
  shows "grows q q'"
  using assms(2) walk_grows [OF assms(1)]
  by (auto simp: PushNameOrDescriptionChange_def Let_def split: if_splits)

lemma appendAndCoalesce_grows:
  assumes "pushGrows push"
    and "appendAndCoalesce fuel push tree q aEvent = Some (Inr (r, q'))"
  shows "grows q q'"
proof -
  from assms(2) obtain coalesced where c: "CoalesceEvents (mEvents q @ [aEvent]) = Inr coalesced"
    by (auto simp: appendAndCoalesce_def split: sum.splits)
  then have len: "length coalesced = length (mEvents q) + 1"
    by (auto dest: CoalesceEvents_same_length)
  then have first: "grows q (q\<lparr>mEvents := coalesced\<rparr>)"
    by (simp add: grows_def)
  show ?thesis
  proof (cases "isPropagatingType (mEventType (last coalesced))")
    case True
    with assms(2) c obtain r1 where
      "PushNameOrDescriptionChange fuel push tree (mEventType (last coalesced))
         (mAccessible (last coalesced)) (q\<lparr>mEvents := coalesced\<rparr>) = Some (Inr (r1, q'))"
      by (auto simp: appendAndCoalesce_def andThen_Some)
    then have "grows (q\<lparr>mEvents := coalesced\<rparr>) q'"
      by (rule PushNameOrDescriptionChange_grows [OF assms(1)])
    with first show ?thesis by (rule grows_trans)
  next
    case False
    with assms(2) c first show ?thesis
      by (auto simp: appendAndCoalesce_def)
  qed
qed

lemma PushEvent_grows: "pushGrows (PushEvent fuel tree)"
proof (induction fuel)
  case 0
  show ?case by (simp add: pushGrows_def)
next
  case (Suc fuel)
  show ?case
    unfolding pushGrows_def
  proof (intro allI impI)
    fix q e r q'
    assume "mEventType e \<noteq> EVENT_FOCUS" and "PushEvent (Suc fuel) tree q e = Some (Inr (r, q'))"
    then show "grows q q'"
      using appendAndCoalesce_grows [OF Suc]
      by (auto split: sum.splits bool.splits)
  qed
qed

lemma PushEvent_focus:
  "mEventType e = EVENT_FOCUS \<Longrightarrow>
   PushEvent (Suc fuel) tree q e = Some (Inr ((True, e), q\<lparr>mFocusEvent := Some e\<rparr>))"
  by simp

lemma PushEvent_not_focus:
  "mEventType e \<noteq> EVENT_FOCUS \<Longrightarrow> PushEvent fuel tree q e = Some (Inr (r, q')) \<Longrightarrow> grows q q'"
  using PushEvent_grows by (rule pushGrowsD)

section \<open>The drain: detached events and the focus event\<close>

lemma deliveredEvent_eventCalls:
  assumes "eventCalls events event new" and "c \<in> set new" and "deliveredEvent c = Some e"
  shows "e = event \<and> mEventRule event \<noteq> eDoNotEmit \<and> (\<forall>f. c \<noteq> ProcessFocusEvent f)"
proof -
  have "c \<notin> set (selectedStateCalls events event)"
    using assms(3) deliveredEvent_selectedStateCalls [of c events event] by auto
  with assms(1,2) have "mEventRule event \<noteq> eDoNotEmit
      \<and> (c = ProcessTextSelChangeEvent event \<or> c = FireEvent event \<or> c = SendQueuedMutationEvents)"
    by (auto simp: eventCalls_def)
  with assms(3) show ?thesis
    by (auto simp: deliveredEvent_def)
qed

lemma deliveredEvent_concat:
  assumes "list_all2 (eventCalls events) (take (length news) rest) news"
    and "c \<in> set (concat news)" and "deliveredEvent c = Some e"
  shows "e \<in> set rest \<and> mEventRule e \<noteq> eDoNotEmit \<and> (\<forall>f. c \<noteq> ProcessFocusEvent f)"
proof -
  from assms(2) obtain new where "new \<in> set news" "c \<in> set new"
    by auto
  then obtain k where k: "k < length news" "c \<in> set (news ! k)"
    by (auto simp: in_set_conv_nth)
  with assms(1) have "eventCalls events (take (length news) rest ! k) (news ! k)"
    by (auto simp: list_all2_conv_all_nth)
  then have *: "e = take (length news) rest ! k \<and> mEventRule (take (length news) rest ! k) \<noteq> eDoNotEmit
       \<and> (\<forall>f. c \<noteq> ProcessFocusEvent f)"
    using k(2) assms(3) by (rule deliveredEvent_eventCalls)
  from assms(1) k(1) have "k < length (take (length news) rest)"
    by (auto simp: list_all2_conv_all_nth)
  then have "take (length news) rest ! k \<in> set rest"
    by (metis in_set_takeD nth_mem)
  with * show ?thesis by auto
qed

text \<open>
  Claim C3, as amended. A drain empties the live queue (sequence and focus slot) before its
  first call, and from then on only the collaborators touch the live queue: what is in the live
  queue when the drain ends is exactly what the reactions to its calls have put into the emptied
  queue, so an event pushed during the drain is not processed by it and is still there for the
  next drain. The calls of the drain are those for the events it detached, and no others: first
  the focus event, if there is one and its target is not defunct; then the detached entries
  have their turn, one after the other, in order, with no call for an entry whose target is
  null or defunct at that moment or whose rule is \<open>eDoNotEmit\<close>, and with the delivery of
  the entry otherwise; then possibly the report of the selection changes. Every detached entry
  has its turn, unless the document is detached: then the drain stops right after the
  \<open>FireEvent\<close> call during which that happened, and the entries after it are dropped.
\<close>

theorem drain_processes_detached_events:
  "\<exists>focusCalls news final.
     calls (ProcessEventQueue collab w q) = focusCalls @ concat news @ final
     \<and> focusCalls = (case mFocusEvent q of
                       None \<Rightarrow> []
                     | Some f \<Rightarrow> if IsDefunct collab w (mAccessible f) then []
                                else [ProcessFocusEvent f])
     \<and> length news \<le> length (mEvents q)
     \<and> (\<forall>k<length news. turnCalls collab (mEvents q) (mEvents q ! k)
            (fst (reactAll collab (focusCalls @ concat (take k news))
                    (w, q\<lparr>mEvents := [], mFocusEvent := None\<rparr>))) (news ! k))
     \<and> (length news = length (mEvents q)
         \<or> (concat news \<noteq> [] \<and> final = []
             \<and> last (concat news) = FireEvent (mEvents q ! (length news - 1))
             \<and> mDocument (queue (ProcessEventQueue collab w q)) = 0))
     \<and> (final = [] \<or> (\<exists>a b. final = [SendSelectedAccessiblesChanged a b]))
     \<and> (world (ProcessEventQueue collab w q), queue (ProcessEventQueue collab w q))
         = reactAll collab (calls (ProcessEventQueue collab w q))
             (w, q\<lparr>mEvents := [], mFocusEvent := None\<rparr>)
     \<and> (\<forall>c \<in> set (calls (ProcessEventQueue collab w q)). \<forall>e.
           deliveredEvent c = Some e \<longrightarrow> e \<in> set (mEvents q) \<or> mFocusEvent q = Some e)"
proof -
  obtain focusCalls news final where d:
    "calls (ProcessEventQueue collab w q) = focusCalls @ concat news @ final"
    "case mFocusEvent q of
           None \<Rightarrow> focusCalls = []
         | Some f \<Rightarrow> focusCalls = (if IsDefunct collab w (mAccessible f) then []
                                    else [ProcessFocusEvent f])"
    "list_all2 (eventCalls (mEvents q)) (take (length news) (mEvents q)) news"
    "final = [] \<or> (\<exists>a b. final = [SendSelectedAccessiblesChanged a b])"
    using drain_shape [of collab w q] by blast
  have "e \<in> set (mEvents q) \<or> mFocusEvent q = Some e"
    if "c \<in> set (calls (ProcessEventQueue collab w q))" "deliveredEvent c = Some e" for c e
  proof -
    from that(1) d(1) consider "c \<in> set focusCalls" | "c \<in> set (concat news)" | "c \<in> set final"
      by auto
    then show ?thesis
    proof cases
      case 1
      with d(2) that(2) show ?thesis
        by (auto simp: deliveredEvent_def split: option.splits if_splits)
    next
      case 2
      from deliveredEvent_concat [OF d(3) 2 that(2)] show ?thesis
        by simp
    next
      case 3
      with d(4) that(2) show ?thesis
        by (auto simp: deliveredEvent_def)
    qed
  qed
  then have only: "\<forall>c \<in> set (calls (ProcessEventQueue collab w q)). \<forall>e.
           deliveredEvent c = Some e \<longrightarrow> e \<in> set (mEvents q) \<or> mFocusEvent q = Some e"
    by blast
  from drain_turns [of collab w q] only show ?thesis
    by blast
qed

text \<open>
  Claim C3 as stated fails when a listener detaches the document: of two queued events with live
  targets the drain fires the first, the listener shuts the document down, and the drain
  returns (lines 476-478). The second event is not processed, and it is not in the queue for
  the next drain either.
\<close>

theorem drain_stops_when_detached_counterexample:
  "calls (ProcessEventQueue detachingCollab () twoEventsQueue)
     = [FireEvent (plainEvent (EVENT_OTHER 0) eAllowDupes 3)]
   \<and> mEvents twoEventsQueue ! 1 = plainEvent (EVENT_OTHER 0) eAllowDupes 4
   \<and> mEventRule (mEvents twoEventsQueue ! 1) \<noteq> eDoNotEmit
   \<and> \<not> IsDefunct detachingCollab () (mAccessible (mEvents twoEventsQueue ! 1))
   \<and> mEvents (queue (ProcessEventQueue detachingCollab () twoEventsQueue)) = []"
  by code_simp

lemma three_events_drain:
  "calls (ProcessEventQueue pushingCollab () threeEventsQueue)
     = [ProcessFocusEvent (plainEvent EVENT_FOCUS eAllowDupes 6),
        FireEvent (plainEvent (EVENT_OTHER 0) eAllowDupes 3),
        FireEvent (plainEvent (EVENT_OTHER 0) eAllowDupes 5)]
   \<and> queue (ProcessEventQueue pushingCollab () threeEventsQueue)
     = emptyQueue\<lparr>mEvents := [plainEvent (EVENT_OTHER 1) eAllowDupes 7,
                             plainEvent (EVENT_OTHER 1) eAllowDupes 7]\<rparr>"
  by code_simp

theorem drain_processes_detached_events_witness:
  "calls (ProcessEventQueue pushingCollab () threeEventsQueue)
     = [ProcessFocusEvent (plainEvent EVENT_FOCUS eAllowDupes 6),
        FireEvent (plainEvent (EVENT_OTHER 0) eAllowDupes 3),
        FireEvent (plainEvent (EVENT_OTHER 0) eAllowDupes 5)]
   \<and> queue (ProcessEventQueue pushingCollab () threeEventsQueue)
     = emptyQueue\<lparr>mEvents := [plainEvent (EVENT_OTHER 1) eAllowDupes 7,
                             plainEvent (EVENT_OTHER 1) eAllowDupes 7]\<rparr>
   \<and> (\<exists>news. calls (ProcessEventQueue pushingCollab () threeEventsQueue)
                = [ProcessFocusEvent (plainEvent EVENT_FOCUS eAllowDupes 6)] @ concat news @ []
        \<and> length news = length (mEvents threeEventsQueue)
        \<and> news ! 0 = [FireEvent (mEvents threeEventsQueue ! 0)]
        \<and> news ! 1 = []
        \<and> news ! 2 = [FireEvent (mEvents threeEventsQueue ! 2)])
   \<and> ((), queue (ProcessEventQueue pushingCollab () threeEventsQueue))
     = reactAll pushingCollab
         [ProcessFocusEvent (plainEvent EVENT_FOCUS eAllowDupes 6),
          FireEvent (plainEvent (EVENT_OTHER 0) eAllowDupes 3),
          FireEvent (plainEvent (EVENT_OTHER 0) eAllowDupes 5)]
         ((), threeEventsQueue\<lparr>mEvents := [], mFocusEvent := None\<rparr>)"
proof -
  let ?D = "ProcessEventQueue pushingCollab () threeEventsQueue"
  let ?f = "plainEvent EVENT_FOCUS eAllowDupes 6"
  let ?a = "plainEvent (EVENT_OTHER 0) eAllowDupes 3"
  let ?b = "plainEvent (EVENT_OTHER 0) eAllowDupes 5"
  note run = three_events_drain
  obtain focusCalls news final where d:
    "calls ?D = focusCalls @ concat news @ final"
    "focusCalls = (case mFocusEvent threeEventsQueue of
                       None \<Rightarrow> []
                     | Some f \<Rightarrow> if IsDefunct pushingCollab () (mAccessible f) then []
                                else [ProcessFocusEvent f])"
    "length news \<le> length (mEvents threeEventsQueue)"
    "\<forall>k<length news. turnCalls pushingCollab (mEvents threeEventsQueue) (mEvents threeEventsQueue ! k)
            (fst (reactAll pushingCollab (focusCalls @ concat (take k news))
                    ((), threeEventsQueue\<lparr>mEvents := [], mFocusEvent := None\<rparr>))) (news ! k)"
    "length news = length (mEvents threeEventsQueue)
         \<or> (concat news \<noteq> [] \<and> final = []
             \<and> last (concat news) = FireEvent (mEvents threeEventsQueue ! (length news - 1))
             \<and> mDocument (queue ?D) = 0)"
    "final = [] \<or> (\<exists>a b. final = [SendSelectedAccessiblesChanged a b])"
    "(world ?D, queue ?D)
         = reactAll pushingCollab (calls ?D) ((), threeEventsQueue\<lparr>mEvents := [], mFocusEvent := None\<rparr>)"
    using drain_processes_detached_events [of pushingCollab "()" threeEventsQueue] by blast
  have doc: "mDocument (queue ?D) \<noteq> 0"
    by (simp add: run emptyQueue_def)
  with d(5) have len: "length news = 3"
    by (auto simp: threeEventsQueue_def)
  then obtain n0 n1 n2 where news: "news = [n0, n1, n2]"
    by (auto simp: length_Suc_conv numeral_3_eq_3)
  have focus: "focusCalls = [ProcessFocusEvent ?f]"
    using d(2) by (simp add: threeEventsQueue_def pushingCollab_def quietCollab_def plainEvent_def)
  have alive: "\<not> IsDefunct pushingCollab w a" for w a
    by (simp add: pushingCollab_def quietCollab_def)
  have evs: "mEvents threeEventsQueue ! 0 = ?a"
    "mEvents threeEventsQueue ! 1 = (plainEvent (EVENT_OTHER 0) eAllowDupes 4)\<lparr>mEventRule := eDoNotEmit\<rparr>"
    "mEvents threeEventsQueue ! 2 = ?b"
    by (simp_all add: threeEventsQueue_def)
  from d(4) len have t0: "turnCalls pushingCollab (mEvents threeEventsQueue) ?a
            (fst (reactAll pushingCollab (focusCalls @ concat (take 0 news))
                    ((), threeEventsQueue\<lparr>mEvents := [], mFocusEvent := None\<rparr>))) (news ! 0)"
    unfolding evs(1) [symmetric] by simp
  from d(4) len have t1: "turnCalls pushingCollab (mEvents threeEventsQueue)
            ((plainEvent (EVENT_OTHER 0) eAllowDupes 4)\<lparr>mEventRule := eDoNotEmit\<rparr>)
            (fst (reactAll pushingCollab (focusCalls @ concat (take 1 news))
                    ((), threeEventsQueue\<lparr>mEvents := [], mFocusEvent := None\<rparr>))) (news ! 1)"
    unfolding evs(2) [symmetric] by simp
  from d(4) len have t2: "turnCalls pushingCollab (mEvents threeEventsQueue) ?b
            (fst (reactAll pushingCollab (focusCalls @ concat (take 2 news))
                    ((), threeEventsQueue\<lparr>mEvents := [], mFocusEvent := None\<rparr>))) (news ! 2)"
    unfolding evs(3) [symmetric] by simp
  from t1 have n1: "n1 = []"
    by (simp add: turnCalls_def news)
  from t0 have n0: "n0 = [FireEvent ?a] \<or> n0 = [FireEvent ?a, SendQueuedMutationEvents]"
    by (simp add: turnCalls_def news alive plainEvent_def selectedStateCalls_def)
  from t2 have n2: "n2 = [FireEvent ?b] \<or> n2 = [FireEvent ?b, SendQueuedMutationEvents]"
    by (simp add: turnCalls_def news alive plainEvent_def selectedStateCalls_def)
  from d(1) have "[ProcessFocusEvent ?f, FireEvent ?a, FireEvent ?b]
                    = ProcessFocusEvent ?f # n0 @ n2 @ final"
    unfolding conjunct1 [OF run] focus news n1 by simp
  with n0 n2 have exact: "n0 = [FireEvent ?a]" "n2 = [FireEvent ?b]" "final = []"
    by auto
  have shape: "\<exists>news. calls ?D = [ProcessFocusEvent ?f] @ concat news @ []
        \<and> length news = length (mEvents threeEventsQueue)
        \<and> news ! 0 = [FireEvent (mEvents threeEventsQueue ! 0)]
        \<and> news ! 1 = []
        \<and> news ! 2 = [FireEvent (mEvents threeEventsQueue ! 2)]"
    using d(1) len unfolding focus news n1 exact evs
    by (intro exI [of _ "[[FireEvent ?a], [], [FireEvent ?b]]"]) (simp add: threeEventsQueue_def)
  have live: "((), queue ?D) = reactAll pushingCollab
         [ProcessFocusEvent ?f, FireEvent ?a, FireEvent ?b]
         ((), threeEventsQueue\<lparr>mEvents := [], mFocusEvent := None\<rparr>)"
    using d(7) unfolding conjunct1 [OF run] by simp
  show ?thesis
    by (intro conjI conjunct1 [OF run] conjunct2 [OF run] shape live)
qed

lemma PushEvents_append:
  "PushEvents fuel tree (xs @ ys) q
     = andThen (PushEvents fuel tree xs q) (\<lambda>_ q1. PushEvents fuel tree ys q1)"
  by (induction xs arbitrary: q) (auto simp: andThen_def split: option.splits sum.splits)

lemma PushEvents_grows:
  "PushEvents fuel tree es q = Some (Inr (r, q')) \<Longrightarrow> \<forall>e \<in> set es. mEventType e \<noteq> EVENT_FOCUS
   \<Longrightarrow> grows q q'"
proof (induction es arbitrary: q)
  case Nil
  then show ?case by simp
next
  case (Cons e es)
  from Cons.prems(1) obtain r1 q1 where
    one: "PushEvent fuel tree q e = Some (Inr (r1, q1))" and
    two: "PushEvents fuel tree es q1 = Some (Inr (r, q'))"
    by (auto simp: andThen_Some)
  have "grows q q1"
    using Cons.prems(2) one by (intro PushEvent_not_focus) auto
  moreover have "grows q1 q'"
    using two Cons.prems(2) by (intro Cons.IH) auto
  ultimately show ?case by (rule grows_trans)
qed

lemma PushEvents_last_focus:
  assumes "PushEvents fuel tree (before @ f # after) q = Some (Inr (r, q'))"
    and "mEventType f = EVENT_FOCUS" and "\<forall>e \<in> set after. mEventType e \<noteq> EVENT_FOCUS"
  shows "mFocusEvent q' = Some f"
proof -
  from assms(1) obtain r1 q1 r2 q2 where
    one: "PushEvents fuel tree before q = Some (Inr (r1, q1))" and
    two: "PushEvent fuel tree q1 f = Some (Inr (r2, q2))" and
    three: "PushEvents fuel tree after q2 = Some (Inr (r, q'))"
    by (auto simp: PushEvents_append andThen_Some)
  from two obtain n where "fuel = Suc n"
    by (cases fuel) auto
  with two assms(2) have "mFocusEvent q2 = Some f"
    by auto
  moreover have "grows q2 q'"
    using three assms(3) by (rule PushEvents_grows)
  ultimately show ?thesis
    by (simp add: grows_def)
qed

text \<open>
  Claim C2. A pushed focus event does not enter the sequence: it replaces what is in the focus
  slot, and nothing else changes. So after any sequence of pushes the slot holds the focus
  event that was pushed last, wherever in the sequence the focus events were pushed; and if
  the target of that event is not defunct when the drain starts, the first call of the drain
  delivers it to the focus manager, before every other event of the generation, and no later
  call delivers a focus event.
\<close>

theorem focus_event_is_delivered_first:
  assumes "PushEvents fuel tree (before @ f # after) q = Some (Inr ((), q'))"
    and "mEventType f = EVENT_FOCUS"
    and "\<forall>e \<in> set after. mEventType e \<noteq> EVENT_FOCUS"
    and "\<not> IsDefunct collab w (mAccessible f)"
  shows "PushEvent (Suc n) tree q0 f = Some (Inr ((True, f), q0\<lparr>mFocusEvent := Some f\<rparr>))
       \<and> mFocusEvent q' = Some f
       \<and> (\<exists>rest. calls (ProcessEventQueue collab w q') = ProcessFocusEvent f # rest
                  \<and> (\<forall>c \<in> set rest. \<forall>e. c \<noteq> ProcessFocusEvent e))"
proof -
  have slot: "mFocusEvent q' = Some f"
    using assms(1-3) by (rule PushEvents_last_focus)
  obtain focusCalls news final where d:
    "calls (ProcessEventQueue collab w q') = focusCalls @ concat news @ final"
    "case mFocusEvent q' of
           None \<Rightarrow> focusCalls = []
         | Some f \<Rightarrow> focusCalls = (if IsDefunct collab w (mAccessible f) then []
                                    else [ProcessFocusEvent f])"
    "list_all2 (eventCalls (mEvents q')) (take (length news) (mEvents q')) news"
    "final = [] \<or> (\<exists>a b. final = [SendSelectedAccessiblesChanged a b])"
    using drain_shape [of collab w q'] by blast
  from d(2) slot assms(4) have first: "focusCalls = [ProcessFocusEvent f]"
    by simp
  have "c \<noteq> ProcessFocusEvent e" if "c \<in> set (concat news @ final)" for c e
  proof
    assume c: "c = ProcessFocusEvent e"
    then have "deliveredEvent c = Some e"
      by (simp add: deliveredEvent_def)
    with that d(3,4) c show False
      using deliveredEvent_concat [of "mEvents q'" news "mEvents q'" c e] by auto
  qed
  with d(1) first slot assms(2) show ?thesis
    by simp
qed

theorem focus_event_is_delivered_first_witness:
  "PushEvents 1 quietTree
     ([plainEvent EVENT_REORDER eCoalesceReorder 2] @ plainEvent EVENT_FOCUS eCoalesceOfSameType 5
        # [plainEvent EVENT_REORDER eCoalesceReorder 3]) emptyQueue
     = Some (Inr ((), \<lparr>mEvents = [plainEvent EVENT_REORDER eCoalesceReorder 2,
                                  plainEvent EVENT_REORDER eCoalesceReorder 3],
                       mFocusEvent = Some (plainEvent EVENT_FOCUS eCoalesceOfSameType 5),
                       mDocument = 1\<rparr>))
   \<and> mEventType (plainEvent EVENT_FOCUS eCoalesceOfSameType 5) = EVENT_FOCUS
   \<and> \<not> IsDefunct quietCollab () (mAccessible (plainEvent EVENT_FOCUS eCoalesceOfSameType 5))
   \<and> (\<exists>rest. calls (ProcessEventQueue quietCollab ()
                \<lparr>mEvents = [plainEvent EVENT_REORDER eCoalesceReorder 2,
                             plainEvent EVENT_REORDER eCoalesceReorder 3],
                  mFocusEvent = Some (plainEvent EVENT_FOCUS eCoalesceOfSameType 5),
                  mDocument = 1\<rparr>)
              = ProcessFocusEvent (plainEvent EVENT_FOCUS eCoalesceOfSameType 5) # rest)"
proof -
  have push: "PushEvents 1 quietTree
     ([plainEvent EVENT_REORDER eCoalesceReorder 2] @ plainEvent EVENT_FOCUS eCoalesceOfSameType 5
        # [plainEvent EVENT_REORDER eCoalesceReorder 3]) emptyQueue
     = Some (Inr ((), \<lparr>mEvents = [plainEvent EVENT_REORDER eCoalesceReorder 2,
                                  plainEvent EVENT_REORDER eCoalesceReorder 3],
                       mFocusEvent = Some (plainEvent EVENT_FOCUS eCoalesceOfSameType 5),
                       mDocument = 1\<rparr>))"
    by code_simp
  have focus: "mEventType (plainEvent EVENT_FOCUS eCoalesceOfSameType 5) = EVENT_FOCUS"
    by (simp add: plainEvent_def)
  have rest: "\<forall>e \<in> set [plainEvent EVENT_REORDER eCoalesceReorder 3]. mEventType e \<noteq> EVENT_FOCUS"
    by (simp add: plainEvent_def)
  have alive: "\<not> IsDefunct quietCollab () (mAccessible (plainEvent EVENT_FOCUS eCoalesceOfSameType 5))"
    by (simp add: quietCollab_def)
  from focus_event_is_delivered_first [OF push focus rest alive] push focus alive
  show ?thesis by blast
qed

section \<open>State changes that cancel\<close>

lemma nth_assign:
  "j < length evs \<Longrightarrow> assign evs p f ! j = (if j = p then f (evs ! p) else evs ! j)"
  by (simp add: assign_def)

lemma suppressed_refl [simp]: "suppressed e e"
  by (simp add: suppressed_def)

lemma suppressed_trans: "suppressed a b \<Longrightarrow> suppressed b c \<Longrightarrow> suppressed a c"
  by (auto simp: suppressed_def)

lemma suppressed_fields:
  "suppressed e e' \<Longrightarrow>
     mEventType e' = mEventType e \<and> mAccessible e' = mAccessible e \<and> mState e' = mState e
     \<and> mIsEnabled e' = mIsEnabled e \<and> (mEventRule e = eDoNotEmit \<longrightarrow> mEventRule e' = eDoNotEmit)"
  by (auto simp: suppressed_def)

lemma stateChangeScan_Suc: "stateChangeScan evs t (Suc i) = stateChangeScan (stateChangeStep evs t i) t i"
  by (simp add: stateChangeStep_def)

lemma length_stateChangeStep [simp]: "length (stateChangeStep evs t i) = length evs"
  by (simp add: stateChangeStep_def Let_def)

lemma stateChangeStep_other:
  "j < length evs \<Longrightarrow> j \<noteq> i \<Longrightarrow> j \<noteq> t \<Longrightarrow> stateChangeStep evs t i ! j = evs ! j"
  by (simp add: stateChangeStep_def Let_def nth_assign)

lemma suppressed_assign:
  "j < length evs \<Longrightarrow> suppressed (evs ! j) (assign evs p (\<lambda>e. e\<lparr>mEventRule := eDoNotEmit\<rparr>) ! j)"
  by (simp add: nth_assign suppressed_def)

lemma stateChangeStep_suppressed:
  assumes "j < length evs"
  shows "suppressed (evs ! j) (stateChangeStep evs t i ! j)"
proof -
  let ?evs1 = "assign evs i (\<lambda>e. e\<lparr>mEventRule := eDoNotEmit\<rparr>)"
  have one: "suppressed (evs ! j) (?evs1 ! j)"
    using assms by (rule suppressed_assign)
  have "suppressed (?evs1 ! j) (assign ?evs1 t (\<lambda>e. e\<lparr>mEventRule := eDoNotEmit\<rparr>) ! j)"
    using assms by (intro suppressed_assign) simp
  with one have two: "suppressed (evs ! j) (assign ?evs1 t (\<lambda>e. e\<lparr>mEventRule := eDoNotEmit\<rparr>) ! j)"
    by (rule suppressed_trans)
  show ?thesis
    unfolding stateChangeStep_def Let_def using one two by simp
qed

lemma stateChangeStep_opposite:
  assumes "i < t" "t < length evs"
    and "mEventRule (evs ! i) \<noteq> eDoNotEmit" "mEventType (evs ! i) = mEventType (evs ! t)"
    and "mAccessible (evs ! i) = mAccessible (evs ! t)" "mState (evs ! i) = mState (evs ! t)"
    and "mIsEnabled (evs ! i) \<noteq> mIsEnabled (evs ! t)"
  shows "mEventRule (stateChangeStep evs t i ! i) = eDoNotEmit
       \<and> mEventRule (stateChangeStep evs t i ! t) = eDoNotEmit"
  using assms by (simp add: stateChangeStep_def Let_def nth_assign)

lemma stateChangeScan_suppressed:
  "j < length evs \<Longrightarrow> suppressed (evs ! j) (stateChangeScan evs t n ! j)"
proof (induction n arbitrary: evs)
  case 0
  then show ?case by simp
next
  case (Suc n)
  have "suppressed (evs ! j) (stateChangeStep evs t n ! j)"
    using Suc.prems by (rule stateChangeStep_suppressed)
  moreover have "suppressed (stateChangeStep evs t n ! j) (stateChangeScan (stateChangeStep evs t n) t n ! j)"
    using Suc.prems by (intro Suc.IH) simp
  ultimately show ?case
    unfolding stateChangeScan_Suc by (rule suppressed_trans)
qed

lemma stateChangeScan_cancels:
  assumes "i < n" "n \<le> t" "t < length evs"
    and "mEventRule (evs ! i) \<noteq> eDoNotEmit" "mEventType (evs ! i) = mEventType (evs ! t)"
    and "mAccessible (evs ! i) = mAccessible (evs ! t)" "mState (evs ! i) = mState (evs ! t)"
    and "mIsEnabled (evs ! i) \<noteq> mIsEnabled (evs ! t)"
  shows "mEventRule (stateChangeScan evs t n ! i) = eDoNotEmit
       \<and> mEventRule (stateChangeScan evs t n ! t) = eDoNotEmit"
  using assms
proof (induction n arbitrary: evs)
  case 0
  then show ?case by simp
next
  case (Suc n)
  let ?evs' = "stateChangeStep evs t n"
  have len: "t < length ?evs'" "i < length ?evs'"
    using Suc.prems by simp_all
  show ?case
  proof (cases "i = n")
    case True
    have "mEventRule (?evs' ! i) = eDoNotEmit \<and> mEventRule (?evs' ! t) = eDoNotEmit"
      unfolding True using Suc.prems unfolding True by (intro stateChangeStep_opposite) auto
    moreover have "suppressed (?evs' ! i) (stateChangeScan ?evs' t n ! i)"
      "suppressed (?evs' ! t) (stateChangeScan ?evs' t n ! t)"
      using len by (simp_all add: stateChangeScan_suppressed)
    ultimately show ?thesis
      unfolding stateChangeScan_Suc by (auto dest: suppressed_fields)
  next
    case False
    have same: "?evs' ! i = evs ! i"
      using Suc.prems False by (intro stateChangeStep_other) auto
    have tail: "suppressed (evs ! t) (?evs' ! t)"
      using Suc.prems by (intro stateChangeStep_suppressed) auto
    show ?thesis
    proof (cases "mEventRule (?evs' ! t) = eDoNotEmit")
      case True
      have "mEventRule (stateChangeScan ?evs' t n ! i) = eDoNotEmit
          \<and> mEventRule (stateChangeScan ?evs' t n ! t) = eDoNotEmit"
        using Suc.prems False same suppressed_fields [OF tail]
        by (intro Suc.IH) auto
      then show ?thesis unfolding stateChangeScan_Suc .
    next
      case False
      then have "?evs' ! t = evs ! t"
        using tail by (auto simp: suppressed_def)
      then have "mEventRule (stateChangeScan ?evs' t n ! i) = eDoNotEmit
          \<and> mEventRule (stateChangeScan ?evs' t n ! t) = eDoNotEmit"
        using Suc.prems \<open>i \<noteq> n\<close> same
        by (intro Suc.IH) auto
      then show ?thesis unfolding stateChangeScan_Suc .
    qed
  qed
qed

lemma isDuplicate_other_rule:
  "mEventRule e \<noteq> eRemoveDupes \<Longrightarrow> isDuplicate evs e = Inr False"
  by (simp add: isDuplicate_def)

lemma PushEvent_appends:
  assumes "mEventType e \<noteq> EVENT_FOCUS" and "isDuplicate (mEvents q) e = Inr False"
    and "CoalesceEvents (mEvents q @ [e]) = Inr evs'"
    and "\<not> isPropagatingType (mEventType (last evs'))"
  shows "PushEvent (Suc fuel) tree q e = Some (Inr ((True, last evs'), q\<lparr>mEvents := evs'\<rparr>))"
  using assms by (simp add: appendAndCoalesce_def)

lemma drain_never_delivers_suppressed:
  assumes "mEventRule e = eDoNotEmit"
  shows "FireEvent e \<notin> set (calls (ProcessEventQueue collab w q))"
proof
  assume fired: "FireEvent e \<in> set (calls (ProcessEventQueue collab w q))"
  obtain focusCalls news final where d:
    "calls (ProcessEventQueue collab w q) = focusCalls @ concat news @ final"
    "case mFocusEvent q of
           None \<Rightarrow> focusCalls = []
         | Some f \<Rightarrow> focusCalls = (if IsDefunct collab w (mAccessible f) then []
                                    else [ProcessFocusEvent f])"
    "list_all2 (eventCalls (mEvents q)) (take (length news) (mEvents q)) news"
    "final = [] \<or> (\<exists>a b. final = [SendSelectedAccessiblesChanged a b])"
    using drain_shape [of collab w q] by blast
  from d(2) have "FireEvent e \<notin> set focusCalls"
    by (auto split: option.splits if_splits)
  moreover from d(4) have "FireEvent e \<notin> set final"
    by auto
  ultimately have "FireEvent e \<in> set (concat news)"
    using fired d(1) by auto
  moreover have "deliveredEvent (FireEvent e) = Some e"
    by (simp add: deliveredEvent_def)
  ultimately have "mEventRule e \<noteq> eDoNotEmit"
    using deliveredEvent_concat [OF d(3)] by blast
  with assms show False by simp
qed

text \<open>
  Claim C6, as amended. If a state-change event is pushed while an earlier state-change event
  for the same target and state bit, with the opposite enabled flag, is in the sequence and is
  not yet do-not-emit, coalescing retags both events do-not-emit, and the drain fires neither
  of them.
\<close>

theorem opposite_state_changes_cancel:
  assumes "length (mEvents q) + 1 < 2 ^ 32"
    and "i < length (mEvents q)"
    and "mEventRule (mEvents q ! i) \<noteq> eDoNotEmit"
    and "mEventType aEvent = EVENT_STATE_CHANGE"
    and "mEventRule aEvent = eCoalesceStateChange"
    and "mEventType (mEvents q ! i) = EVENT_STATE_CHANGE"
    and "mAccessible (mEvents q ! i) = mAccessible aEvent"
    and "mState (mEvents q ! i) = mState aEvent"
    and "mIsEnabled (mEvents q ! i) \<noteq> mIsEnabled aEvent"
  shows "\<exists>q'. PushEvent (Suc fuel) tree q aEvent
                = Some (Inr ((True, aEvent\<lparr>mEventRule := eDoNotEmit\<rparr>), q'))
     \<and> length (mEvents q') = length (mEvents q) + 1
     \<and> mEvents q' ! i = (mEvents q ! i)\<lparr>mEventRule := eDoNotEmit\<rparr>
     \<and> mEvents q' ! length (mEvents q) = aEvent\<lparr>mEventRule := eDoNotEmit\<rparr>
     \<and> FireEvent (mEvents q' ! i) \<notin> set (calls (ProcessEventQueue collab w q'))
     \<and> FireEvent (mEvents q' ! length (mEvents q)) \<notin> set (calls (ProcessEventQueue collab w q'))"
proof -
  let ?evs = "mEvents q @ [aEvent]"
  let ?t = "length (mEvents q)"
  let ?evs' = "stateChangeScan ?evs ?t ?t"
  have tail: "?evs ! ?t = aEvent" and old: "?evs ! i = mEvents q ! i"
    using assms(2) by (simp_all add: nth_append)
  have co: "CoalesceEvents ?evs = Inr ?evs'"
    using assms(1,5) CoalesceEvents_scan [of ?evs] by (simp add: Let_def)
  have len: "length ?evs' = ?t + 1"
    by simp
  have rules: "mEventRule (?evs' ! i) = eDoNotEmit \<and> mEventRule (?evs' ! ?t) = eDoNotEmit"
    using assms by (intro stateChangeScan_cancels) (simp_all add: tail old)
  have "suppressed (?evs ! i) (?evs' ! i)"
    using assms(2) by (intro stateChangeScan_suppressed) simp
  moreover have "suppressed (?evs ! ?t) (?evs' ! ?t)"
    by (intro stateChangeScan_suppressed) simp
  ultimately have entries: "?evs' ! i = (mEvents q ! i)\<lparr>mEventRule := eDoNotEmit\<rparr>"
    "?evs' ! ?t = aEvent\<lparr>mEventRule := eDoNotEmit\<rparr>"
    using rules assms(3,5) unfolding tail old by (auto simp: suppressed_def)
  have "length ?evs' \<noteq> 0"
    by simp
  then have "?evs' \<noteq> []"
    by (simp only: length_0_conv not_False_eq_True)
  then have "last ?evs' = ?evs' ! (length ?evs' - 1)"
    by (rule last_conv_nth)
  then have last: "last ?evs' = aEvent\<lparr>mEventRule := eDoNotEmit\<rparr>"
    using entries(2) by simp
  have "PushEvent (Suc fuel) tree q aEvent
          = Some (Inr ((True, last ?evs'), q\<lparr>mEvents := ?evs'\<rparr>))"
    using assms(4,5) co
    by (intro PushEvent_appends isDuplicate_other_rule)
       (simp_all add: last isPropagatingType_def)
  then show ?thesis
    using len entries rules last
    by (intro exI [of _ "q\<lparr>mEvents := ?evs'\<rparr>"]) (simp add: drain_never_delivers_suppressed)
qed

text \<open>
  Claim C6 as stated fails: of three state-change events pushed in one generation for the same
  target and state bit, enabled, disabled, enabled, the second and the third have opposite
  flags, but the first two have already cancelled each other when the third is pushed; the
  third keeps its rule and the drain fires it.
\<close>

theorem opposite_state_changes_counterexample:
  "PushEvents 1 quietTree threeToggles emptyQueue = Some (Inr ((), threeTogglesQueue))
   \<and> mIsEnabled (threeToggles ! 1) \<noteq> mIsEnabled (threeToggles ! 2)
   \<and> mEventRule (mEvents threeTogglesQueue ! 2) \<noteq> eDoNotEmit
   \<and> calls (ProcessEventQueue quietCollab () threeTogglesQueue) = [FireEvent (threeToggles ! 2)]"
  by code_simp

theorem opposite_state_changes_cancel_witness:
  "PushEvent 1 quietTree (emptyQueue\<lparr>mEvents := [stateChangeEvent 4 1 True]\<rparr>)
     (stateChangeEvent 4 1 False)
   = Some (Inr ((True, (stateChangeEvent 4 1 False)\<lparr>mEventRule := eDoNotEmit\<rparr>),
                emptyQueue\<lparr>mEvents := [(stateChangeEvent 4 1 True)\<lparr>mEventRule := eDoNotEmit\<rparr>,
                                         (stateChangeEvent 4 1 False)\<lparr>mEventRule := eDoNotEmit\<rparr>]\<rparr>))
   \<and> FireEvent ((stateChangeEvent 4 1 True)\<lparr>mEventRule := eDoNotEmit\<rparr>)
       \<notin> set (calls (ProcessEventQueue quietCollab ()
                 (emptyQueue\<lparr>mEvents := [(stateChangeEvent 4 1 True)\<lparr>mEventRule := eDoNotEmit\<rparr>,
                                         (stateChangeEvent 4 1 False)\<lparr>mEventRule := eDoNotEmit\<rparr>]\<rparr>)))
   \<and> FireEvent ((stateChangeEvent 4 1 False)\<lparr>mEventRule := eDoNotEmit\<rparr>)
       \<notin> set (calls (ProcessEventQueue quietCollab ()
                 (emptyQueue\<lparr>mEvents := [(stateChangeEvent 4 1 True)\<lparr>mEventRule := eDoNotEmit\<rparr>,
                                         (stateChangeEvent 4 1 False)\<lparr>mEventRule := eDoNotEmit\<rparr>]\<rparr>)))"
proof -
  let ?q = "emptyQueue\<lparr>mEvents := [stateChangeEvent 4 1 True]\<rparr>"
  let ?b = "stateChangeEvent 4 1 False"
  have pre: "length (mEvents ?q) + 1 < 2 ^ 32" "0 < length (mEvents ?q)"
    "mEventRule (mEvents ?q ! 0) \<noteq> eDoNotEmit" "mEventType ?b = EVENT_STATE_CHANGE"
    "mEventRule ?b = eCoalesceStateChange" "mEventType (mEvents ?q ! 0) = EVENT_STATE_CHANGE"
    "mAccessible (mEvents ?q ! 0) = mAccessible ?b" "mState (mEvents ?q ! 0) = mState ?b"
    "mIsEnabled (mEvents ?q ! 0) \<noteq> mIsEnabled ?b"
    by (simp_all add: stateChangeEvent_def plainEvent_def)
  have push: "PushEvent 1 quietTree ?q ?b
     = Some (Inr ((True, ?b\<lparr>mEventRule := eDoNotEmit\<rparr>),
                emptyQueue\<lparr>mEvents := [(stateChangeEvent 4 1 True)\<lparr>mEventRule := eDoNotEmit\<rparr>,
                                         ?b\<lparr>mEventRule := eDoNotEmit\<rparr>]\<rparr>))"
    by code_simp
  from opposite_state_changes_cancel [OF pre, of 0 quietTree quietCollab "()"] push
  show ?thesis by auto
qed

section \<open>The duplicate check of PushEvent\<close>

lemma PushEvent_returns_true:
  "PushEvent fuel tree q aEvent = Some (Inr (r, q')) \<Longrightarrow> fst r"
  by (cases fuel)
     (auto simp: appendAndCoalesce_def andThen_Some split: if_splits sum.splits bool.splits)

lemma CoalesceEvents_no_rule:
  assumes "length evs + 1 < 2 ^ 32" and "mEventRule aEvent = eRemoveDupes"
  shows "CoalesceEvents (evs @ [aEvent]) = Inr (evs @ [aEvent])"
  using assms CoalesceEvents_scan [of "evs @ [aEvent]"] by (simp add: Let_def)

text \<open>
  The propagation comes to an end. Every event it creates has the rule \<open>eRemoveDupes\<close>,
  so \<open>CoalesceEvents\<close> leaves it as it is where it has been appended, and a second event
  of the same type for the same accessible is dropped by the duplicate check: each nested call
  of \<open>PushEvent\<close> that gets as far as the propagation has one more pair of a type and an
  accessible in the queue than the call around it.
\<close>

lemma walkEnds_mono: "walkEnds n tree p \<Longrightarrow> n \<le> m \<Longrightarrow> walkEnds m tree p"
proof (induction n arbitrary: m p)
  case 0
  then show ?case by simp
next
  case (Suc n)
  then obtain k where "m = Suc k" "n \<le> k"
    by (cases m) auto
  with Suc show ?case by auto
qed

lemma finite_pending [simp]: "finite (pending as evs)"
proof -
  have "pending as evs \<subseteq> {EVENT_NAME_CHANGE, EVENT_DESCRIPTION_CHANGE} \<times> set as"
    by (auto simp: pending_def)
  then show ?thesis
    by (rule finite_subset) simp
qed

lemma card_pending: "card (pending as evs) \<le> 2 * length as"
proof -
  have "pending as evs \<subseteq> {EVENT_NAME_CHANGE, EVENT_DESCRIPTION_CHANGE} \<times> set as"
    by (auto simp: pending_def)
  then have "card (pending as evs) \<le> card ({EVENT_NAME_CHANGE, EVENT_DESCRIPTION_CHANGE} \<times> set as)"
    by (intro card_mono) simp_all
  also have "\<dots> = 2 * card (set as)"
    by (simp add: card_cartesian_product)
  also have "\<dots> \<le> 2 * length as"
    using card_length [of as] by simp
  finally show ?thesis .
qed

lemma queuedEvent_append: "queuedEvent evs t a \<Longrightarrow> queuedEvent (evs @ new) t a"
  by (auto simp: queuedEvent_def)

lemma pending_append: "pending as (evs @ new) \<subseteq> pending as evs"
  by (auto simp: pending_def dest: queuedEvent_append)

lemma queuedEvent_snoc:
  "queuedEvent (evs @ [e]) t a \<longleftrightarrow>
     queuedEvent evs t a \<or> (mEventType e = t \<and> mEventRule e = eRemoveDupes \<and> mAccessible e = a)"
  by (auto simp: queuedEvent_def)

lemma pending_snoc:
  assumes "(t, a) \<in> pending as evs" and "mEventType e = t" and "mEventRule e = eRemoveDupes"
    and "mAccessible e = a"
  shows "card (pending as (evs @ [e])) + 1 = card (pending as evs)"
proof -
  have "pending as (evs @ [e]) = pending as evs - {(t, a)}"
    using assms by (auto simp: pending_def queuedEvent_snoc)
  then have "card (pending as (evs @ [e])) = card (pending as evs) - 1"
    using assms(1) by simp
  moreover have "0 < card (pending as evs)"
    using assms(1) by (auto simp: card_gt_0_iff)
  ultimately show ?thesis by simp
qed

lemma appended_refl [simp]: "appended tree as q q"
  by (auto simp: appended_def intro!: exI [of _ "[]"])

lemma appended_trans:
  assumes "appended tree as q q1" and "appended tree as q1 q2"
  shows "appended tree as q q2"
proof -
  from assms(1) obtain new1 where a: "q1 = q\<lparr>mEvents := mEvents q @ new1\<rparr>"
    "\<forall>x \<in> set new1. propagatedEvent tree as x"
    "length new1 + card (pending as (mEvents q @ new1)) \<le> card (pending as (mEvents q))"
    unfolding appended_def by blast
  from assms(2) obtain new2 where b: "q2 = q1\<lparr>mEvents := mEvents q1 @ new2\<rparr>"
    "\<forall>x \<in> set new2. propagatedEvent tree as x"
    "length new2 + card (pending as (mEvents q1 @ new2)) \<le> card (pending as (mEvents q1))"
    unfolding appended_def by blast
  have ev1: "mEvents q1 = mEvents q @ new1"
    unfolding a(1) by simp
  have "q2 = q\<lparr>mEvents := mEvents q @ (new1 @ new2)\<rparr>"
    unfolding b(1) ev1 unfolding a(1) by simp
  moreover have "\<forall>x \<in> set (new1 @ new2). propagatedEvent tree as x"
    using a(2) b(2) by auto
  moreover have "length (new1 @ new2) + card (pending as (mEvents q @ (new1 @ new2)))
                   \<le> card (pending as (mEvents q))"
    using a(3) b(3) unfolding ev1 by simp
  ultimately show ?thesis
    unfolding appended_def by blast
qed

lemma appended_bounds:
  assumes "appended tree as q q'"
  shows "card (pending as (mEvents q')) \<le> card (pending as (mEvents q))"
    and "length (mEvents q') + card (pending as (mEvents q'))
           \<le> length (mEvents q) + card (pending as (mEvents q))"
proof -
  from assms obtain new where a: "q' = q\<lparr>mEvents := mEvents q @ new\<rparr>"
    "length new + card (pending as (mEvents q @ new)) \<le> card (pending as (mEvents q))"
    unfolding appended_def by blast
  have ev: "mEvents q' = mEvents q @ new"
    unfolding a(1) by simp
  show "card (pending as (mEvents q')) \<le> card (pending as (mEvents q))"
    using a(2) unfolding ev by simp
  show "length (mEvents q') + card (pending as (mEvents q'))
           \<le> length (mEvents q) + card (pending as (mEvents q))"
    using a(2) unfolding ev by simp
qed

lemma roomFor_appended: "roomFor as q n \<Longrightarrow> appended tree as q q' \<Longrightarrow> roomFor as q' n"
  using appended_bounds [of tree as q q'] by (simp add: roomFor_def)

lemma settlingD:
  assumes "settling tree as push n" and "t = EVENT_NAME_CHANGE \<or> t = EVENT_DESCRIPTION_CHANGE"
    and "a \<in> set as" and "roomFor as q n"
  shows "\<exists>r q'. push q (NewAccEvent tree t a) = Some (Inr (r, q')) \<and> appended tree as q q'"
  using assms unfolding settling_def roomFor_def by blast

lemma relations_settle:
  assumes "settling tree as push n" and "t = EVENT_NAME_CHANGE \<or> t = EVENT_DESCRIPTION_CHANGE"
  shows "set rel \<subseteq> set as \<Longrightarrow> roomFor as q n \<Longrightarrow>
         \<exists>r q'. PushNameOrDescriptionChangeToRelations push tree t rel pushed q = Some (Inr (r, q'))
                 \<and> appended tree as q q'"
proof (induction rel arbitrary: pushed q)
  case Nil
  then show ?case by simp
next
  case (Cons a rel)
  from Cons.prems have a: "a \<in> set as" and rel: "set rel \<subseteq> set as"
    by simp_all
  obtain r1 q1 where one: "push q (NewAccEvent tree t a) = Some (Inr (r1, q1))"
    "appended tree as q q1"
    using settlingD [OF assms a Cons.prems(2)] by blast
  have "roomFor as q1 n"
    using Cons.prems(2) one(2) by (rule roomFor_appended)
  then obtain r q' where two:
    "PushNameOrDescriptionChangeToRelations push tree t rel (pushed \<or> fst r1) q1 = Some (Inr (r, q'))"
    "appended tree as q1 q'"
    using Cons.IH [OF rel] by blast
  have "PushNameOrDescriptionChangeToRelations push tree t (a # rel) pushed q = Some (Inr (r, q'))"
    using one(1) two(1) by (simp add: andThen_def)
  moreover have "appended tree as q q'"
    using one(2) two(2) by (rule appended_trans)
  ultimately show ?case by blast
qed

lemma walkName_settle:
  assumes "settling tree as push n" and "parent \<in> set as"
    and "set (RelationByType tree parent LABEL_FOR) \<subseteq> set as" and "roomFor as q n"
  shows "\<exists>pc q'. walkName push tree target maybe pushed nca parent q = Some (Inr (pc, q'))
                  \<and> appended tree as q q'"
proof -
  let ?first = "if nameCheckApplies tree nca maybe target parent then
          andThen
            (if fireNameChange tree parent
             then andThen (push q (NewAccEvent tree EVENT_NAME_CHANGE parent))
                    (\<lambda>r q'. Some (Inr (pushed \<or> fst r, q')))
             else Some (Inr (pushed, q)))
            (\<lambda>pushed1 q1. Some (Inr ((pushed1, False), q1)))
        else Some (Inr ((pushed, nca), q))"
  have "\<exists>pc1 q1. ?first = Some (Inr (pc1, q1)) \<and> appended tree as q q1"
  proof (cases "nameCheckApplies tree nca maybe target parent \<and> fireNameChange tree parent")
    case True
    obtain r1 q1 where "push q (NewAccEvent tree EVENT_NAME_CHANGE parent) = Some (Inr (r1, q1))"
      "appended tree as q q1"
      using settlingD [OF assms(1) _ assms(2,4), of EVENT_NAME_CHANGE] by blast
    with True show ?thesis
      by (auto simp: andThen_def)
  next
    case False
    then show ?thesis
      by (auto simp: andThen_def)
  qed
  then obtain pc1 q1 where first: "?first = Some (Inr (pc1, q1))" "appended tree as q q1"
    by blast
  have "roomFor as q1 n"
    using assms(4) first(2) by (rule roomFor_appended)
  then obtain r q2 where rel:
    "PushNameOrDescriptionChangeToRelations push tree (relationEventType LABEL_FOR)
       (RelationByType tree parent LABEL_FOR) False q1 = Some (Inr (r, q2))"
    "appended tree as q1 q2"
    using relations_settle [OF assms(1) _ assms(3), of "relationEventType LABEL_FOR" q1 False]
    by (auto simp: relationEventType_def)
  have "walkName push tree target maybe pushed nca parent q
          = Some (Inr ((fst pc1 \<or> r, snd pc1), q2))"
    unfolding walkName_def first(1) using rel(1) by (simp add: andThen_def)
  moreover have "appended tree as q q2"
    using first(2) rel(2) by (rule appended_trans)
  ultimately show ?thesis by blast
qed

lemma walkBody_settle:
  assumes "settling tree as push n" and "parent \<in> set as"
    and "set (RelationByType tree parent LABEL_FOR) \<subseteq> set as"
    and "set (RelationByType tree parent DESCRIPTION_FOR) \<subseteq> set as" and "roomFor as q n"
  shows "\<exists>pc q'. walkBody push tree target maybe doName doDesc pushed nca parent q
                    = Some (Inr (pc, q'))
                  \<and> appended tree as q q'"
proof -
  let ?first = "if doName then walkName push tree target maybe pushed nca parent q
                else Some (Inr ((pushed, nca), q))"
  have "\<exists>pc1 q1. ?first = Some (Inr (pc1, q1)) \<and> appended tree as q q1"
    using walkName_settle [OF assms(1,2,3,5), of target maybe pushed nca] by auto
  then obtain pc1 q1 where first: "?first = Some (Inr (pc1, q1))" "appended tree as q q1"
    by blast
  have room: "roomFor as q1 n"
    using assms(5) first(2) by (rule roomFor_appended)
  show ?thesis
  proof (cases doDesc)
    case True
    obtain r q2 where rel:
      "PushNameOrDescriptionChangeToRelations push tree (relationEventType DESCRIPTION_FOR)
         (RelationByType tree parent DESCRIPTION_FOR) False q1 = Some (Inr (r, q2))"
      "appended tree as q1 q2"
      using relations_settle [OF assms(1) _ assms(4) room, of "relationEventType DESCRIPTION_FOR" False]
      by (auto simp: relationEventType_def)
    have "walkBody push tree target maybe doName doDesc pushed nca parent q
            = Some (Inr ((fst pc1 \<or> r, snd pc1), q2))"
      unfolding walkBody_def first(1) using rel(1) True by (simp add: andThen_def)
    moreover have "appended tree as q q2"
      using first(2) rel(2) by (rule appended_trans)
    ultimately show ?thesis by blast
  next
    case False
    have "walkBody push tree target maybe doName doDesc pushed nca parent q = Some (Inr (pc1, q1))"
      unfolding walkBody_def first(1) using False by (simp add: andThen_def)
    with first(2) show ?thesis by blast
  qed
qed

lemma walk_settle:
  assumes "settling tree as push n" and "documentOf tree as h"
  shows "walkEnds fuel tree parent \<Longrightarrow> parent \<in> set as \<Longrightarrow> roomFor as q n \<Longrightarrow>
         \<exists>r q'. walk fuel push tree target maybe doName doDesc pushed nca parent q
                   = Some (Inr (r, q'))
                 \<and> appended tree as q q'"
proof (induction fuel arbitrary: parent q pushed nca)
  case 0
  then show ?case by simp
next
  case (Suc fuel)
  from assms(2) Suc.prems(2) have doc:
    "LocalParent tree parent = 0 \<or> LocalParent tree parent \<in> set as"
    "set (RelationByType tree parent LABEL_FOR) \<subseteq> set as"
    "set (RelationByType tree parent DESCRIPTION_FOR) \<subseteq> set as"
    unfolding documentOf_def by blast+
  obtain pc q1 where body:
    "walkBody push tree target maybe doName doDesc pushed nca parent q = Some (Inr (pc, q1))"
    "appended tree as q q1"
    using walkBody_settle [OF assms(1) Suc.prems(2) doc(2,3) Suc.prems(3)] by blast
  have room: "roomFor as q1 n"
    using Suc.prems(3) body(2) by (rule roomFor_appended)
  show ?case
  proof (cases "\<not> IsDoc tree parent \<and> LocalParent tree parent \<noteq> 0
                 \<and> HasNameRule_eNameFromSubtreeIfReqRule tree (LocalParent tree parent)")
    case True
    with Suc.prems(1) have "walkEnds fuel tree (LocalParent tree parent)"
      by simp
    moreover from True doc(1) have "LocalParent tree parent \<in> set as"
      by simp
    ultimately obtain r q' where rest:
      "walk fuel push tree target maybe doName doDesc (fst pc) (snd pc) (LocalParent tree parent) q1
         = Some (Inr (r, q'))"
      "appended tree as q1 q'"
      using Suc.IH [OF _ _ room] by blast
    have "walk (Suc fuel) push tree target maybe doName doDesc pushed nca parent q
            = Some (Inr (r, q'))"
      using body(1) rest(1) True by (simp add: andThen_def)
    moreover have "appended tree as q q'"
      using body(2) rest(2) by (rule appended_trans)
    ultimately show ?thesis by blast
  next
    case False
    then have "walk (Suc fuel) push tree target maybe doName doDesc pushed nca parent q
                 = Some (Inr (fst pc, q1))"
      using body(1) by (auto simp: andThen_def)
    with body(2) show ?thesis by blast
  qed
qed

lemma PushNameOrDescriptionChange_settle:
  assumes "settling tree as push n" and "documentOf tree as h" and "walkEnds fuel tree target"
    and "target \<in> set as" and "roomFor as q n"
  shows "\<exists>r q'. PushNameOrDescriptionChange fuel push tree t target q = Some (Inr (r, q'))
                 \<and> appended tree as q q'"
  unfolding PushNameOrDescriptionChange_def Let_def
  using walk_settle [OF assms] by auto


lemma NewAccEvent_fields [simp]:
  "mEventRule (NewAccEvent tree t a) = DefaultEventRule tree"
  "mAccessible (NewAccEvent tree t a) = a"
  by (simp_all add: NewAccEvent_def)

lemma propagated_duplicate:
  assumes "DefaultEventRule tree = eRemoveDupes" and "length evs < 2 ^ 32"
  shows "isDuplicate evs (NewAccEvent tree t a) = Inr (queuedEvent evs t a)"
proof -
  have "queuedEvent evs t a
          \<longleftrightarrow> (\<exists>i<length evs. mEventType (evs ! i) = t \<and> mEventRule (evs ! i) = eRemoveDupes
                                \<and> mAccessible (evs ! i) = a)"
    unfolding queuedEvent_def by (metis in_set_conv_nth)
  then show ?thesis
    using assms isDuplicate_scan [OF assms(2), of "NewAccEvent tree t a"] by simp
qed

lemma PushEvent_settling:
  assumes "DefaultEventRule tree = eRemoveDupes" and "documentOf tree as h"
  shows "h + n \<le> f \<Longrightarrow> settling tree as (PushEvent (Suc f) tree) n"
proof (induction n arbitrary: f)
  case 0
  show ?case
    unfolding settling_def
  proof (intro allI impI)
    fix q :: EventQueue and t a
    assume t: "t = EVENT_NAME_CHANGE \<or> t = EVENT_DESCRIPTION_CHANGE" and a: "a \<in> set as"
      and room: "length (mEvents q) + card (pending as (mEvents q)) < 2 ^ 32"
      and none: "card (pending as (mEvents q)) \<le> 0"
    from none have "pending as (mEvents q) = {}"
      by simp
    with t a have "queuedEvent (mEvents q) t a"
      by (auto simp: pending_def)
    moreover have "length (mEvents q) < 2 ^ 32"
      using room by simp
    ultimately have "isDuplicate (mEvents q) (NewAccEvent tree t a) = Inr True"
      using propagated_duplicate [OF assms(1)] by simp
    moreover have "mEventType (NewAccEvent tree t a) \<noteq> EVENT_FOCUS"
      using t by auto
    ultimately have "PushEvent (Suc f) tree q (NewAccEvent tree t a)
        = Some (Inr ((True, (NewAccEvent tree t a)\<lparr>mEventRule := eDoNotEmit\<rparr>), q))"
      by simp
    then show "\<exists>r q'. PushEvent (Suc f) tree q (NewAccEvent tree t a) = Some (Inr (r, q'))
                 \<and> appended tree as q q'"
      by (intro exI [of _ "(True, (NewAccEvent tree t a)\<lparr>mEventRule := eDoNotEmit\<rparr>)"] exI [of _ q])
         simp
  qed
next
  case (Suc n)
  from Suc.prems obtain g where f: "f = Suc g" and g: "h + n \<le> g"
    by (cases f) auto
  have inner: "settling tree as (PushEvent (Suc g) tree) n"
    using g by (rule Suc.IH)
  show ?case
    unfolding settling_def
  proof (intro allI impI)
    fix q :: EventQueue and t a
    let ?e = "NewAccEvent tree t a"
    let ?q1 = "q\<lparr>mEvents := mEvents q @ [?e]\<rparr>"
    assume t: "t = EVENT_NAME_CHANGE \<or> t = EVENT_DESCRIPTION_CHANGE" and a: "a \<in> set as"
      and room: "length (mEvents q) + card (pending as (mEvents q)) < 2 ^ 32"
      and some: "card (pending as (mEvents q)) \<le> Suc n"
    have short: "length (mEvents q) < 2 ^ 32"
      using room by simp
    have nofocus: "mEventType ?e \<noteq> EVENT_FOCUS"
      using t by auto
    show "\<exists>r q'. PushEvent (Suc f) tree q ?e = Some (Inr (r, q')) \<and> appended tree as q q'"
    proof (cases "queuedEvent (mEvents q) t a")
      case True
      then have "isDuplicate (mEvents q) ?e = Inr True"
        using propagated_duplicate [OF assms(1) short] by simp
      with nofocus have "PushEvent (Suc f) tree q ?e
          = Some (Inr ((True, ?e\<lparr>mEventRule := eDoNotEmit\<rparr>), q))"
        by simp
      then show ?thesis
        by (intro exI [of _ "(True, ?e\<lparr>mEventRule := eDoNotEmit\<rparr>)"] exI [of _ q]) simp
    next
      case False
      then have notdup: "isDuplicate (mEvents q) ?e = Inr False"
        using propagated_duplicate [OF assms(1) short] by simp
      from False t a have pend: "(t, a) \<in> pending as (mEvents q)"
        by (auto simp: pending_def)
      have less: "card (pending as (mEvents q @ [?e])) + 1 = card (pending as (mEvents q))"
        using pend by (rule pending_snoc) (simp_all add: assms(1))
      then have fits: "length (mEvents q) + 1 < 2 ^ 32"
        using room by simp
      have co: "CoalesceEvents (mEvents q @ [?e]) = Inr (mEvents q @ [?e])"
        using fits by (rule CoalesceEvents_no_rule) (simp add: assms(1))
      have one: "appended tree as q ?q1"
        unfolding appended_def
        using less t a
        by (intro exI [of _ "[?e]"]) (simp add: propagatedEvent_def)
      show ?thesis
      proof (cases "t = EVENT_NAME_CHANGE")
        case notname: False
        with t have "\<not> isPropagatingType t"
          by (auto simp: isPropagatingType_def)
        then have "PushEvent (Suc f) tree q ?e = Some (Inr ((True, ?e), ?q1))"
          using nofocus notdup co by (simp add: appendAndCoalesce_def)
        with one show ?thesis by blast
      next
        case True
        then have propagating: "isPropagatingType t"
          by (simp add: isPropagatingType_def)
        have room1: "roomFor as ?q1 n"
          using less room some by (simp add: roomFor_def)
        have height: "walkEnds h tree a"
          using assms(2) a unfolding documentOf_def by blast
        have "h \<le> f"
          using Suc.prems by simp
        with height have ends: "walkEnds f tree a"
          by (rule walkEnds_mono)
        have inner': "settling tree as (PushEvent f tree) n"
          using inner unfolding f .
        obtain r q' where walked:
          "PushNameOrDescriptionChange f (PushEvent f tree) tree t a ?q1 = Some (Inr (r, q'))"
          "appended tree as ?q1 q'"
          using PushNameOrDescriptionChange_settle [OF inner' assms(2) ends a room1] by blast
        have "PushEvent (Suc f) tree q ?e
                = Some (Inr ((True, mEvents q' ! length (mEvents q)), q'))"
          using nofocus notdup co propagating walked(1) by (simp add: appendAndCoalesce_def andThen_def)
        moreover have "appended tree as q q'"
          using one walked(2) by (rule appended_trans)
        ultimately show ?thesis by blast
      qed
    qed
  qed
qed

lemma PushEvent_propagates:
  assumes "mEventRule aEvent = eRemoveDupes" and "mEventType aEvent \<noteq> EVENT_FOCUS"
    and "isDuplicate (mEvents q) aEvent = Inr False"
    and "isPropagatingType (mEventType aEvent)"
    and "DefaultEventRule tree = eRemoveDupes" and "documentOf tree as h"
    and "mAccessible aEvent \<in> set as"
    and "length (mEvents q) + 2 * length as + 1 < 2 ^ 32"
    and "h + 2 * length as < fuel"
  shows "\<exists>new. PushEvent (Suc fuel) tree q aEvent
                  = Some (Inr ((True, aEvent), q\<lparr>mEvents := mEvents q @ aEvent # new\<rparr>))
               \<and> (\<forall>x \<in> set new. propagatedEvent tree as x)"
proof -
  let ?n = "2 * length as"
  let ?q1 = "q\<lparr>mEvents := mEvents q @ [aEvent]\<rparr>"
  from assms(9) obtain g where fuel: "fuel = Suc g" and g: "h + ?n \<le> g"
    by (cases fuel) auto
  have "settling tree as (PushEvent (Suc g) tree) ?n"
    using assms(5,6) g by (rule PushEvent_settling)
  then have inner: "settling tree as (PushEvent fuel tree) ?n"
    unfolding fuel .
  have co: "CoalesceEvents (mEvents q @ [aEvent]) = Inr (mEvents q @ [aEvent])"
    using assms(8,1) by (intro CoalesceEvents_no_rule) simp_all
  have room: "roomFor as ?q1 ?n"
    using assms(8) card_pending [of as "mEvents q @ [aEvent]"] by (simp add: roomFor_def)
  have "walkEnds h tree (mAccessible aEvent)"
    using assms(6,7) unfolding documentOf_def by blast
  moreover have "h \<le> fuel"
    using assms(9) by simp
  ultimately have ends: "walkEnds fuel tree (mAccessible aEvent)"
    by (rule walkEnds_mono)
  obtain r q' where walked:
    "PushNameOrDescriptionChange fuel (PushEvent fuel tree) tree (mEventType aEvent)
       (mAccessible aEvent) ?q1 = Some (Inr (r, q'))"
    "appended tree as ?q1 q'"
    using PushNameOrDescriptionChange_settle [OF inner assms(6) ends assms(7) room] by blast
  from walked(2) obtain new where new: "q' = ?q1\<lparr>mEvents := mEvents ?q1 @ new\<rparr>"
    "\<forall>x \<in> set new. propagatedEvent tree as x"
    unfolding appended_def by blast
  have q': "q' = q\<lparr>mEvents := mEvents q @ aEvent # new\<rparr>"
    unfolding new(1) by simp
  have at: "mEvents q' ! length (mEvents q) = aEvent"
    unfolding q' by simp
  have "PushEvent (Suc fuel) tree q aEvent
          = Some (Inr ((True, mEvents q' ! length (mEvents q)), q'))"
    using assms(2,3,4) co walked(1) by (simp add: appendAndCoalesce_def andThen_def)
  then have "PushEvent (Suc fuel) tree q aEvent
          = Some (Inr ((True, aEvent), q\<lparr>mEvents := mEvents q @ aEvent # new\<rparr>))"
    unfolding at unfolding q' .
  with new(2) show ?thesis by blast
qed

text \<open>
  Claim C7, as amended. When \<open>PushEvent\<close> receives an event that is not a focus event, whose
  rule is \<open>eRemoveDupes\<close>, and the sequence is not empty, every entry of the sequence is
  compared with it. If some entry has the same type, rule and target, the rule of the new
  event is set to \<open>eDoNotEmit\<close>, the queue is left as it is and the call returns true. If no
  entry has, the event is appended and \<open>CoalesceEvents\<close> runs (and changes nothing, for this
  rule); the call then returns true, at once or, for a name-change, text-removed or
  text-inserted event, after the propagation. The propagation does end: in a document of
  finitely many accessibles \<open>as\<close>, in which the walk from every accessible ends within
  \<open>h\<close> passes, the events that the propagation creates having the rule \<open>eRemoveDupes\<close>
  (the default of the constructor), every call with more than \<open>h + 2 * length as\<close> units of
  fuel for the nested calls returns true, with the event appended and, after it, the
  name-change and description-change events that the propagation has pushed; this holds also
  when the relations form a cycle.
\<close>

theorem remove_duplicates_push:
  assumes "mEventRule aEvent = eRemoveDupes" and "mEventType aEvent \<noteq> EVENT_FOCUS"
    and "mEvents q \<noteq> []" and "length (mEvents q) + 1 < 2 ^ 32"
  shows "((\<exists>i<length (mEvents q). identicalTo aEvent (mEvents q ! i)) \<longrightarrow>
            PushEvent (Suc fuel) tree q aEvent
              = Some (Inr ((True, aEvent\<lparr>mEventRule := eDoNotEmit\<rparr>), q)))
       \<and> ((\<forall>i<length (mEvents q). \<not> identicalTo aEvent (mEvents q ! i)) \<longrightarrow>
            CoalesceEvents (mEvents q @ [aEvent]) = Inr (mEvents q @ [aEvent])
            \<and> PushEvent (Suc fuel) tree q aEvent
              = (if isPropagatingType (mEventType aEvent) then
                   andThen
                     (PushNameOrDescriptionChange fuel (PushEvent fuel tree) tree (mEventType aEvent)
                        (mAccessible aEvent) (q\<lparr>mEvents := mEvents q @ [aEvent]\<rparr>))
                     (\<lambda>_ q'. Some (Inr ((True, mEvents q' ! length (mEvents q)), q')))
                 else Some (Inr ((True, aEvent), q\<lparr>mEvents := mEvents q @ [aEvent]\<rparr>)))
            \<and> (isPropagatingType (mEventType aEvent)
                \<and> DefaultEventRule tree = eRemoveDupes \<and> documentOf tree as h
                \<and> mAccessible aEvent \<in> set as
                \<and> length (mEvents q) + 2 * length as + 1 < 2 ^ 32
                \<and> h + 2 * length as < fuel \<longrightarrow>
                  (\<exists>new. PushEvent (Suc fuel) tree q aEvent
                            = Some (Inr ((True, aEvent), q\<lparr>mEvents := mEvents q @ aEvent # new\<rparr>))
                         \<and> (\<forall>x \<in> set new. propagatedEvent tree as x))))
       \<and> (\<forall>n r q'. PushEvent n tree q aEvent = Some (Inr (r, q')) \<longrightarrow> fst r)"
proof -
  have dup: "isDuplicate (mEvents q) aEvent
               = Inr (\<exists>i<length (mEvents q). identicalTo aEvent (mEvents q ! i))"
    using assms(1,4) isDuplicate_scan [of "mEvents q" aEvent] by (simp add: identicalTo_def)
  have co: "CoalesceEvents (mEvents q @ [aEvent]) = Inr (mEvents q @ [aEvent])"
    using assms(4,1) by (rule CoalesceEvents_no_rule)
  have found: "PushEvent (Suc fuel) tree q aEvent
                  = Some (Inr ((True, aEvent\<lparr>mEventRule := eDoNotEmit\<rparr>), q))"
    if "\<exists>i<length (mEvents q). identicalTo aEvent (mEvents q ! i)"
  proof -
    from that dup have "isDuplicate (mEvents q) aEvent = Inr True"
      by simp
    with assms(2) show ?thesis by simp
  qed
  have fresh: "PushEvent (Suc fuel) tree q aEvent
      = (if isPropagatingType (mEventType aEvent) then
           andThen
             (PushNameOrDescriptionChange fuel (PushEvent fuel tree) tree (mEventType aEvent)
                (mAccessible aEvent) (q\<lparr>mEvents := mEvents q @ [aEvent]\<rparr>))
             (\<lambda>_ q'. Some (Inr ((True, mEvents q' ! length (mEvents q)), q')))
         else Some (Inr ((True, aEvent), q\<lparr>mEvents := mEvents q @ [aEvent]\<rparr>)))"
    if "\<forall>i<length (mEvents q). \<not> identicalTo aEvent (mEvents q ! i)"
  proof -
    from that dup have "isDuplicate (mEvents q) aEvent = Inr False"
      by simp
    with assms(2) co show ?thesis
      by (simp add: appendAndCoalesce_def)
  qed
  have returns: "\<exists>new. PushEvent (Suc fuel) tree q aEvent
                            = Some (Inr ((True, aEvent), q\<lparr>mEvents := mEvents q @ aEvent # new\<rparr>))
                         \<and> (\<forall>x \<in> set new. propagatedEvent tree as x)"
    if "\<forall>i<length (mEvents q). \<not> identicalTo aEvent (mEvents q ! i)"
      and "isPropagatingType (mEventType aEvent)"
      and "DefaultEventRule tree = eRemoveDupes" and "documentOf tree as h"
      and "mAccessible aEvent \<in> set as"
      and "length (mEvents q) + 2 * length as + 1 < 2 ^ 32"
      and "h + 2 * length as < fuel"
  proof -
    from that(1) dup have "isDuplicate (mEvents q) aEvent = Inr False"
      by simp
    with assms(1,2) show ?thesis
      using that(2-7) by (rule PushEvent_propagates)
  qed
  show ?thesis
    using found fresh co returns PushEvent_returns_true [of _ tree q aEvent]
    by blast
qed

text \<open>
  Claim C7 as stated fails for a focus event that carries the rule \<open>eRemoveDupes\<close>: the
  sequence is not empty and no entry is identical to the event, yet the event is not
  appended; it goes to the focus slot and the sequence stays as it is.
\<close>

theorem remove_duplicates_push_counterexample:
  "mEventRule (plainEvent EVENT_FOCUS eRemoveDupes 5) = eRemoveDupes
   \<and> mEvents oneReorderQueue \<noteq> []
   \<and> \<not> identicalTo (plainEvent EVENT_FOCUS eRemoveDupes 5) (mEvents oneReorderQueue ! 0)
   \<and> length (mEvents oneReorderQueue) = 1
   \<and> PushEvent 1 quietTree oneReorderQueue (plainEvent EVENT_FOCUS eRemoveDupes 5)
       = Some (Inr ((True, plainEvent EVENT_FOCUS eRemoveDupes 5),
                    oneReorderQueue\<lparr>mFocusEvent := Some (plainEvent EVENT_FOCUS eRemoveDupes 5)\<rparr>))
   \<and> mEvents (oneReorderQueue\<lparr>mFocusEvent := Some (plainEvent EVENT_FOCUS eRemoveDupes 5)\<rparr>)
       = mEvents oneReorderQueue"
  by code_simp

lemma name_change_pushes:
  "PushEvent 11 threeLevelTree oneReorderQueue (plainEvent EVENT_NAME_CHANGE eRemoveDupes 1)
     = Some (Inr ((True, plainEvent EVENT_NAME_CHANGE eRemoveDupes 1),
                  oneReorderQueue\<lparr>mEvents := mEvents oneReorderQueue
                     @ plainEvent EVENT_NAME_CHANGE eRemoveDupes 1
                     # [NewAccEvent threeLevelTree EVENT_NAME_CHANGE 3]\<rparr>))
   \<and> PushEvent 7 cyclicLabelTree oneReorderQueue (plainEvent EVENT_NAME_CHANGE eRemoveDupes 1)
     = Some (Inr ((True, plainEvent EVENT_NAME_CHANGE eRemoveDupes 1),
                  oneReorderQueue\<lparr>mEvents := mEvents oneReorderQueue
                     @ plainEvent EVENT_NAME_CHANGE eRemoveDupes 1
                     # [NewAccEvent cyclicLabelTree EVENT_NAME_CHANGE 2]\<rparr>))"
  by code_simp

theorem remove_duplicates_push_witness:
  "mEventRule (plainEvent EVENT_REORDER eRemoveDupes 2) = eRemoveDupes
   \<and> mEventType (plainEvent EVENT_REORDER eRemoveDupes 2) \<noteq> EVENT_FOCUS
   \<and> mEvents oneReorderQueue \<noteq> [] \<and> length (mEvents oneReorderQueue) + 1 < 2 ^ 32
   \<and> identicalTo (plainEvent EVENT_REORDER eRemoveDupes 2) (mEvents oneReorderQueue ! 0)
   \<and> PushEvent 1 quietTree oneReorderQueue (plainEvent EVENT_REORDER eRemoveDupes 2)
       = Some (Inr ((True, (plainEvent EVENT_REORDER eRemoveDupes 2)\<lparr>mEventRule := eDoNotEmit\<rparr>),
                    oneReorderQueue))
   \<and> \<not> identicalTo (plainEvent EVENT_REORDER eRemoveDupes 3) (mEvents oneReorderQueue ! 0)
   \<and> PushEvent 1 quietTree oneReorderQueue (plainEvent EVENT_REORDER eRemoveDupes 3)
       = Some (Inr ((True, plainEvent EVENT_REORDER eRemoveDupes 3),
                    oneReorderQueue\<lparr>mEvents := mEvents oneReorderQueue
                                       @ [plainEvent EVENT_REORDER eRemoveDupes 3]\<rparr>))
   \<and> \<not> identicalTo (plainEvent EVENT_NAME_CHANGE eRemoveDupes 1) (mEvents oneReorderQueue ! 0)
   \<and> isPropagatingType (mEventType (plainEvent EVENT_NAME_CHANGE eRemoveDupes 1))
   \<and> DefaultEventRule threeLevelTree = eRemoveDupes \<and> documentOf threeLevelTree [1, 2, 3] 3
   \<and> (\<exists>new. PushEvent 11 threeLevelTree oneReorderQueue (plainEvent EVENT_NAME_CHANGE eRemoveDupes 1)
                = Some (Inr ((True, plainEvent EVENT_NAME_CHANGE eRemoveDupes 1),
                             oneReorderQueue\<lparr>mEvents := mEvents oneReorderQueue
                                @ plainEvent EVENT_NAME_CHANGE eRemoveDupes 1 # new\<rparr>))
              \<and> new = [NewAccEvent threeLevelTree EVENT_NAME_CHANGE 3]
              \<and> list_all (propagatedEvent threeLevelTree [1, 2, 3]) new)
   \<and> DefaultEventRule cyclicLabelTree = eRemoveDupes \<and> documentOf cyclicLabelTree [1, 2] 1
   \<and> RelationByType cyclicLabelTree 1 LABEL_FOR = [2]
   \<and> RelationByType cyclicLabelTree 2 LABEL_FOR = [1]
   \<and> (\<exists>new. PushEvent 7 cyclicLabelTree oneReorderQueue (plainEvent EVENT_NAME_CHANGE eRemoveDupes 1)
                = Some (Inr ((True, plainEvent EVENT_NAME_CHANGE eRemoveDupes 1),
                             oneReorderQueue\<lparr>mEvents := mEvents oneReorderQueue
                                @ plainEvent EVENT_NAME_CHANGE eRemoveDupes 1 # new\<rparr>))
              \<and> new = [NewAccEvent cyclicLabelTree EVENT_NAME_CHANGE 2]
              \<and> list_all (propagatedEvent cyclicLabelTree [1, 2]) new)"
proof -
  let ?n = "plainEvent EVENT_NAME_CHANGE eRemoveDupes 1"
  have pre: "mEventRule (plainEvent EVENT_REORDER eRemoveDupes k) = eRemoveDupes"
    "mEventType (plainEvent EVENT_REORDER eRemoveDupes k) \<noteq> EVENT_FOCUS"
    "mEvents oneReorderQueue \<noteq> []" "length (mEvents oneReorderQueue) + 1 < 2 ^ 32" for k
    by (simp_all add: plainEvent_def oneReorderQueue_def)
  have same: "identicalTo (plainEvent EVENT_REORDER eRemoveDupes 2) (mEvents oneReorderQueue ! 0)"
    and other: "\<not> identicalTo (plainEvent EVENT_REORDER eRemoveDupes 3) (mEvents oneReorderQueue ! 0)"
    and kind: "\<not> isPropagatingType (mEventType (plainEvent EVENT_REORDER eRemoveDupes 3))"
    by (simp_all add: identicalTo_def plainEvent_def oneReorderQueue_def isPropagatingType_def)
  have len: "length (mEvents oneReorderQueue) = 1"
    by (simp add: oneReorderQueue_def)
  have first: "PushEvent 1 quietTree oneReorderQueue (plainEvent EVENT_REORDER eRemoveDupes 2)
       = Some (Inr ((True, (plainEvent EVENT_REORDER eRemoveDupes 2)\<lparr>mEventRule := eDoNotEmit\<rparr>),
                    oneReorderQueue))"
    "PushEvent 1 quietTree oneReorderQueue (plainEvent EVENT_REORDER eRemoveDupes 3)
       = Some (Inr ((True, plainEvent EVENT_REORDER eRemoveDupes 3),
                    oneReorderQueue\<lparr>mEvents := mEvents oneReorderQueue
                                       @ [plainEvent EVENT_REORDER eRemoveDupes 3]\<rparr>))"
    using remove_duplicates_push [OF pre, of 2 0 quietTree]
          remove_duplicates_push [OF pre, of 3 0 quietTree] pre same other kind len
    by (auto simp: less_Suc_eq)
  have pre2: "mEventRule ?n = eRemoveDupes" "mEventType ?n \<noteq> EVENT_FOCUS"
    and differs: "\<not> identicalTo ?n (mEvents oneReorderQueue ! 0)"
    and propagating: "isPropagatingType (mEventType ?n)"
    by (simp_all add: identicalTo_def plainEvent_def oneReorderQueue_def isPropagatingType_def)
  have noMatch: "\<forall>i<length (mEvents oneReorderQueue). \<not> identicalTo ?n (mEvents oneReorderQueue ! i)"
    using differs len by simp
  have doc3: "documentOf threeLevelTree [1, 2, 3] 3"
    by code_simp
  have tree3: "DefaultEventRule threeLevelTree = eRemoveDupes"
    "mAccessible ?n \<in> set [1, 2, 3]"
    "length (mEvents oneReorderQueue) + 2 * length [1 :: nat, 2, 3] + 1 < 2 ^ 32"
    "3 + 2 * length [1 :: nat, 2, 3] < 10"
    by (simp_all add: threeLevelTree_def plainEvent_def oneReorderQueue_def)
  have doc2: "documentOf cyclicLabelTree [1, 2] 1"
    by code_simp
  have tree2: "DefaultEventRule cyclicLabelTree = eRemoveDupes"
    "mAccessible ?n \<in> set [1, 2]"
    "length (mEvents oneReorderQueue) + 2 * length [1 :: nat, 2] + 1 < 2 ^ 32"
    "1 + 2 * length [1 :: nat, 2] < 6"
    by (simp_all add: cyclicLabelTree_def quietTree_def plainEvent_def oneReorderQueue_def)
  have cycle: "RelationByType cyclicLabelTree 1 LABEL_FOR = [2]"
    "RelationByType cyclicLabelTree 2 LABEL_FOR = [1]"
    by (simp_all add: cyclicLabelTree_def quietTree_def)
  have fuels: "Suc 10 = 11" "Suc 6 = 7"
    by simp_all
  from remove_duplicates_push [OF pre2 pre(3,4), where fuel = 10 and tree = threeLevelTree
         and as = "[1, 2, 3]" and h = 3] noMatch propagating tree3 doc3
  obtain new3 where new3:
    "PushEvent (Suc 10) threeLevelTree oneReorderQueue ?n
       = Some (Inr ((True, ?n), oneReorderQueue\<lparr>mEvents := mEvents oneReorderQueue @ ?n # new3\<rparr>))"
    "\<forall>x \<in> set new3. propagatedEvent threeLevelTree [1, 2, 3] x"
    by blast
  from new3(1) have "mEvents (oneReorderQueue\<lparr>mEvents := mEvents oneReorderQueue @ ?n # new3\<rparr>)
      = mEvents (oneReorderQueue\<lparr>mEvents := mEvents oneReorderQueue
                     @ ?n # [NewAccEvent threeLevelTree EVENT_NAME_CHANGE 3]\<rparr>)"
    unfolding fuels conjunct1 [OF name_change_pushes] by simp
  then have "new3 = [NewAccEvent threeLevelTree EVENT_NAME_CHANGE 3]"
    by simp
  with new3(2) have three: "\<exists>new. PushEvent 11 threeLevelTree oneReorderQueue ?n
                = Some (Inr ((True, ?n), oneReorderQueue\<lparr>mEvents := mEvents oneReorderQueue @ ?n # new\<rparr>))
              \<and> new = [NewAccEvent threeLevelTree EVENT_NAME_CHANGE 3]
              \<and> list_all (propagatedEvent threeLevelTree [1, 2, 3]) new"
    unfolding conjunct1 [OF name_change_pushes] by (simp add: list_all_iff)
  from remove_duplicates_push [OF pre2 pre(3,4), where fuel = 6 and tree = cyclicLabelTree
         and as = "[1, 2]" and h = 1] noMatch propagating tree2 doc2
  obtain new2 where new2:
    "PushEvent (Suc 6) cyclicLabelTree oneReorderQueue ?n
       = Some (Inr ((True, ?n), oneReorderQueue\<lparr>mEvents := mEvents oneReorderQueue @ ?n # new2\<rparr>))"
    "\<forall>x \<in> set new2. propagatedEvent cyclicLabelTree [1, 2] x"
    by blast
  from new2(1) have "mEvents (oneReorderQueue\<lparr>mEvents := mEvents oneReorderQueue @ ?n # new2\<rparr>)
      = mEvents (oneReorderQueue\<lparr>mEvents := mEvents oneReorderQueue
                     @ ?n # [NewAccEvent cyclicLabelTree EVENT_NAME_CHANGE 2]\<rparr>)"
    unfolding fuels conjunct2 [OF name_change_pushes] by simp
  then have "new2 = [NewAccEvent cyclicLabelTree EVENT_NAME_CHANGE 2]"
    by simp
  with new2(2) have two: "\<exists>new. PushEvent 7 cyclicLabelTree oneReorderQueue ?n
                = Some (Inr ((True, ?n), oneReorderQueue\<lparr>mEvents := mEvents oneReorderQueue @ ?n # new\<rparr>))
              \<and> new = [NewAccEvent cyclicLabelTree EVENT_NAME_CHANGE 2]
              \<and> list_all (propagatedEvent cyclicLabelTree [1, 2]) new"
    unfolding conjunct2 [OF name_change_pushes] by (simp add: list_all_iff)
  show ?thesis
    by (intro conjI pre same other first differs propagating tree3(1) doc3 three tree2(1) doc2 cycle two)
qed

section \<open>A remove and an add merged into one selection event\<close>

lemma merge_remove_then_add:
  assumes "i < length evs"
    and "mPreceedingCount (evs ! i) = 0"
    and "mSelChangeType (evs ! i) = eSelectionRemove"
    and "mSelChangeType a = eSelectionAdd"
    and "mItem a \<noteq> mItem (evs ! i)"
  shows "CoalesceSelChangeEvents (evs @ [a]) (length evs) i bound
           = Inr (evs[i := packedRemove (evs ! i)] @ [packingAdd a i])"
proof -
  let ?t = "length evs"
  let ?evs1 = "evs @ [a\<lparr>mPreceedingCount := 1\<rparr>]"
  have one: "assign (evs @ [a]) ?t (\<lambda>e. e\<lparr>mPreceedingCount := mPreceedingCount ((evs @ [a]) ! i) + 1\<rparr>)
             = ?evs1"
    using assms(1,2) by (simp add: assign_def nth_append)
  have tail: "?evs1 ! ?t = a\<lparr>mPreceedingCount := 1\<rparr>" and matched: "?evs1 ! i = evs ! i"
    using assms(1) by (simp_all add: nth_append)
  have two: "assign ?evs1 i (\<lambda>e. e\<lparr>mEventRule := eDoNotEmit\<rparr>)
             = evs[i := packedRemove (evs ! i)] @ [a\<lparr>mPreceedingCount := 1\<rparr>]"
    using assms(1) by (simp add: assign_def nth_append list_update_append packedRemove_def)
  have three: "assign (assign (evs[i := packedRemove (evs ! i)] @ [a\<lparr>mPreceedingCount := 1\<rparr>]) ?t
                 (\<lambda>e. e\<lparr>mEventType := EVENT_SELECTION\<rparr>)) ?t (\<lambda>e. e\<lparr>mPackedEvent := Some i\<rparr>)
             = evs[i := packedRemove (evs ! i)] @ [packingAdd a i]"
    by (simp add: assign_def nth_append list_update_append packingAdd_def)
  show ?thesis
    unfolding CoalesceSelChangeEvents_def one Let_def tail matched
    using assms(3-5) two three by (simp add: kSelChangeCountToPack_def)
qed

lemma calls_invoke [simp]: "calls (invoke collab c st) = calls st @ [c]"
  by (simp add: invoke_def Let_def)

lemma calls_collectSelectChange [simp]:
  "calls (collectSelectChange collab event st) = calls st"
  by (simp add: collectSelectChange_def Let_def)

lemma world_collectSelectChange [simp]:
  "world (collectSelectChange collab event st) = world st"
  by (simp add: collectSelectChange_def Let_def)

lemma calls_fireSelectedState [simp]:
  "calls (fireSelectedState collab events event st) = calls st @ selectedStateCalls events event"
  using extends_fireSelectedState [of collab st events event] by (simp add: extends_def)

lemma processEvent_fires:
  assumes "mEventRule event \<noteq> eDoNotEmit" and "mAccessible event \<noteq> 0"
    and "\<not> IsDefunct collab (world st) (mAccessible event)"
    and "mEventType event \<noteq> EVENT_TEXT_SELECTION_CHANGED" and "mEventType event \<noteq> EVENT_REORDER"
    and "mEventType event \<noteq> EVENT_TEXT_INSERTED" and "mEventType event \<noteq> EVENT_TEXT_REMOVED"
  shows "calls (fst (processEvent collab events event st))
           = calls st @ selectedStateCalls events event @ [FireEvent event]"
  using assms by (simp add: processEvent_def Let_def)

lemma CoalesceEvents_selection:
  assumes "evs \<noteq> []" and "length evs < 2 ^ 32"
    and "mEventRule (last evs) = eCoalesceSelectionChange"
  shows "CoalesceEvents evs = selChangeScan evs (length evs - 1) (length evs - 1)"
proof -
  have "mEventRule (evs ! (length evs - 1)) = eCoalesceSelectionChange"
    using assms by (simp add: last_conv_nth)
  then show ?thesis
    using assms by (simp add: CoalesceEvents_scan Let_def)
qed

text \<open>
  Claim C4, as amended. A selection-add event for item B is pushed while a selection-remove
  event for another item A of the same widget is the nearest earlier entry with rule
  \<open>eCoalesceSelectionChange\<close> for that widget and has preceding count 0, so that the
  preceding count of the add becomes 1. Then the two are merged: the add becomes a
  \<open>EVENT_SELECTION\<close> event, still on its own item B, the remove is retagged \<open>eDoNotEmit\<close>
  and is the packed event of the add, and the drain, on reaching the merged entry, fires the
  selected state of B (selected), then that of A (unselected), then the merged event.
\<close>

theorem remove_then_add_is_merged:
  assumes "length (mEvents q) + 1 < 2 ^ 32" and "i < length (mEvents q)"
    and "mEventRule (mEvents q ! i) = eCoalesceSelectionChange"
    and "mSelChangeType (mEvents q ! i) = eSelectionRemove"
    and "mPreceedingCount (mEvents q ! i) = 0"
    and "mEventRule a = eCoalesceSelectionChange"
    and "mSelChangeType a = eSelectionAdd"
    and "mEventType a \<noteq> EVENT_FOCUS"
    and "mWidget a = mWidget (mEvents q ! i)"
    and "mItem a \<noteq> mItem (mEvents q ! i)"
    and "\<forall>j. i < j \<and> j < length (mEvents q) \<longrightarrow>
           \<not> (mEventRule (mEvents q ! j) = eCoalesceSelectionChange
              \<and> mWidget (mEvents q ! j) = mWidget a)"
    and "mAccessible a \<noteq> 0" and "\<not> IsDefunct collab (world st) (mAccessible a)"
  shows "PushEvent (Suc fuel) tree q a
           = Some (Inr ((True, packingAdd a i),
                        q\<lparr>mEvents := (mEvents q)[i := packedRemove (mEvents q ! i)]
                                      @ [packingAdd a i]\<rparr>))
       \<and> mPreceedingCount (packingAdd a i) = 1
       \<and> mEventType (packingAdd a i) = EVENT_SELECTION
       \<and> mItem (packingAdd a i) = mItem a
       \<and> mPackedEvent (packingAdd a i) = Some i
       \<and> mEventRule (packedRemove (mEvents q ! i)) = eDoNotEmit
       \<and> calls (fst (processEvent collab
                        ((mEvents q)[i := packedRemove (mEvents q ! i)] @ [packingAdd a i])
                        (packingAdd a i) st))
           = calls st @ [FireStateChange (mAccessible a) True (mIsFromUserInput a),
                         FireStateChange (mAccessible (mEvents q ! i)) False
                           (mIsFromUserInput (mEvents q ! i)),
                         FireEvent (packingAdd a i)]"
proof -
  let ?evs = "mEvents q @ [a]"
  let ?t = "length (mEvents q)"
  let ?evs' = "(mEvents q)[i := packedRemove (mEvents q ! i)] @ [packingAdd a i]"
  have ne: "?evs \<noteq> []" and len: "length ?evs < 2 ^ 32" and rule: "mEventRule (last ?evs) = eCoalesceSelectionChange"
    using assms(1,6) by simp_all
  have at: "sameRuleAndWidget ?evs (length ?evs - 1) i"
    using assms(2,3,6,9) by (simp add: sameRuleAndWidget_def nth_append)
  have between: "\<forall>j. i < j \<and> j < length ?evs - 1 \<longrightarrow> \<not> sameRuleAndWidget ?evs (length ?evs - 1) j"
    using assms(6,11) by (auto simp: sameRuleAndWidget_def nth_append)
  have "CoalesceEvents ?evs = selChangeScan ?evs (length ?evs - 1) (length ?evs - 1)"
    using ne len rule by (rule CoalesceEvents_selection)
  also have "\<dots> = CoalesceSelChangeEvents ?evs (length ?evs - 1) i (word_of_nat i)"
    using assms(2) at between by (intro selChangeScan_nearest) simp_all
  also have "\<dots> = Inr ?evs'"
    using merge_remove_then_add [OF assms(2,5,4,7,10)] by simp
  finally have co: "CoalesceEvents ?evs = Inr ?evs'" .
  have last: "last ?evs' = packingAdd a i"
    by simp
  have push: "PushEvent (Suc fuel) tree q a = Some (Inr ((True, last ?evs'), q\<lparr>mEvents := ?evs'\<rparr>))"
    using assms(8,6) co
    by (intro PushEvent_appends isDuplicate_other_rule)
       (simp_all add: packingAdd_def isPropagatingType_def)
  have packed: "?evs' ! i = packedRemove (mEvents q ! i)"
    using assms(2) by (simp add: nth_append)
  have "calls (fst (processEvent collab ?evs' (packingAdd a i) st))
          = calls st @ selectedStateCalls ?evs' (packingAdd a i) @ [FireEvent (packingAdd a i)]"
    using assms(6,12,13) by (intro processEvent_fires) (simp_all add: packingAdd_def)
  moreover have "selectedStateCalls ?evs' (packingAdd a i)
          = [FireStateChange (mAccessible a) True (mIsFromUserInput a),
             FireStateChange (mAccessible (mEvents q ! i)) False (mIsFromUserInput (mEvents q ! i))]"
    unfolding selectedStateCalls_def using assms(4,7) packed
    by (simp add: packingAdd_def packedRemove_def)
  ultimately show ?thesis
    using push last by (simp add: packingAdd_def packedRemove_def)
qed

text \<open>
  Claim C4 as stated fails when the remove is not the entry the add is matched with. After an
  add for item 1, the remove for item 2 is merged into that add and is do-not-emit; the add
  for item 3 is then matched with the first add, gets preceding count 1, and undoes that
  merge. The remove for item 2 and the add for item 3 are not merged: the drain fires the three
  events one by one, none of them a \<open>EVENT_SELECTION\<close> event.
\<close>

theorem remove_then_add_counterexample:
  "PushEvents 1 quietTree
     [selChangeEvent 9 1 eSelectionAdd, selChangeEvent 9 2 eSelectionRemove,
      selChangeEvent 9 3 eSelectionAdd] emptyQueue
     = Some (Inr ((), addRemoveAddQueue))
   \<and> mPreceedingCount (mEvents addRemoveAddQueue ! 2) = 1
   \<and> mEventType (mEvents addRemoveAddQueue ! 2) = EVENT_SELECTION_ADD
   \<and> mPackedEvent (mEvents addRemoveAddQueue ! 2) = None
   \<and> mEventRule (mEvents addRemoveAddQueue ! 1) = eCoalesceSelectionChange
   \<and> calls (ProcessEventQueue quietCollab () addRemoveAddQueue)
       = [FireStateChange 1 True False, FireEvent (mEvents addRemoveAddQueue ! 0),
          FireStateChange 2 False False, FireEvent (mEvents addRemoveAddQueue ! 1),
          FireStateChange 3 True False, FireEvent (mEvents addRemoveAddQueue ! 2)]"
  by code_simp

theorem remove_then_add_is_merged_witness:
  "PushEvent 1 quietTree (emptyQueue\<lparr>mEvents := [selChangeEvent 9 1 eSelectionRemove]\<rparr>)
     (selChangeEvent 9 2 eSelectionAdd)
     = Some (Inr ((True, packingAdd (selChangeEvent 9 2 eSelectionAdd) 0),
                  emptyQueue\<lparr>mEvents := [packedRemove (selChangeEvent 9 1 eSelectionRemove),
                                           packingAdd (selChangeEvent 9 2 eSelectionAdd) 0]\<rparr>))
   \<and> calls (ProcessEventQueue quietCollab ()
              (emptyQueue\<lparr>mEvents := [packedRemove (selChangeEvent 9 1 eSelectionRemove),
                                       packingAdd (selChangeEvent 9 2 eSelectionAdd) 0]\<rparr>))
       = [FireStateChange 2 True False, FireStateChange 1 False False,
          FireEvent (packingAdd (selChangeEvent 9 2 eSelectionAdd) 0)]"
proof -
  let ?q = "emptyQueue\<lparr>mEvents := [selChangeEvent 9 1 eSelectionRemove]\<rparr>"
  let ?a = "selChangeEvent 9 2 eSelectionAdd"
  let ?st = "\<lparr>world = (), queue = emptyQueue, selectedIDs = [], unselectedIDs = [], calls = []\<rparr>"
  have pre: "length (mEvents ?q) + 1 < 2 ^ 32" "0 < length (mEvents ?q)"
    "mEventRule (mEvents ?q ! 0) = eCoalesceSelectionChange"
    "mSelChangeType (mEvents ?q ! 0) = eSelectionRemove"
    "mPreceedingCount (mEvents ?q ! 0) = 0"
    "mEventRule ?a = eCoalesceSelectionChange"
    "mSelChangeType ?a = eSelectionAdd"
    "mEventType ?a \<noteq> EVENT_FOCUS"
    "mWidget ?a = mWidget (mEvents ?q ! 0)"
    "mItem ?a \<noteq> mItem (mEvents ?q ! 0)"
    "\<forall>j. 0 < j \<and> j < length (mEvents ?q) \<longrightarrow>
           \<not> (mEventRule (mEvents ?q ! j) = eCoalesceSelectionChange
              \<and> mWidget (mEvents ?q ! j) = mWidget ?a)"
    "mAccessible ?a \<noteq> 0" "\<not> IsDefunct quietCollab (world ?st) (mAccessible ?a)"
    by (auto simp: selChangeEvent_def plainEvent_def SelChangeKind_def quietCollab_def)
  have drain: "calls (ProcessEventQueue quietCollab ()
              (emptyQueue\<lparr>mEvents := [packedRemove (selChangeEvent 9 1 eSelectionRemove),
                                       packingAdd (selChangeEvent 9 2 eSelectionAdd) 0]\<rparr>))
       = [FireStateChange 2 True False, FireStateChange 1 False False,
          FireEvent (packingAdd (selChangeEvent 9 2 eSelectionAdd) 0)]"
    by code_simp
  from remove_then_add_is_merged [OF pre, of 0 quietTree] drain
  show ?thesis by simp
qed

section \<open>The walk over the ancestors\<close>


lemma andThen_return [simp]: "andThen (Some (Inr (r, q))) f = f r q"
  by (simp add: andThen_def)








section \<open>Pushes, sequence length and deliveries\<close>

lemma deliveries_append [simp]: "deliveries (a @ b) = deliveries a + deliveries b"
  by (simp add: deliveries_def)

lemma deliveries_selectedStateCalls [simp]: "deliveries (selectedStateCalls events event) = 0"
  by (auto simp: deliveries_def filter_empty_conv dest: deliveredEvent_selectedStateCalls)

lemma deliveries_eventCalls: "eventCalls events event new \<Longrightarrow> deliveries new \<le> 1"
  by (auto simp: eventCalls_def) (simp_all add: deliveries_def deliveredEvent_def)

lemma deliveries_concat:
  "list_all2 (eventCalls events) es news \<Longrightarrow> deliveries (concat news) \<le> length news"
proof (induction es news rule: list_all2_induct)
  case Nil
  show ?case by (simp add: deliveries_def)
next
  case (Cons e es new news)
  from deliveries_eventCalls [OF Cons.hyps(1)] Cons.IH show ?case
    by simp
qed

lemma deliveries_drain:
  "deliveries (calls (ProcessEventQueue collab w q))
     \<le> length (mEvents q) + (if mFocusEvent q = None then 0 else 1)"
proof -
  obtain focusCalls news final where d:
    "calls (ProcessEventQueue collab w q) = focusCalls @ concat news @ final"
    "case mFocusEvent q of
           None \<Rightarrow> focusCalls = []
         | Some f \<Rightarrow> focusCalls = (if IsDefunct collab w (mAccessible f) then []
                                    else [ProcessFocusEvent f])"
    "length news \<le> length (mEvents q)"
    "list_all2 (eventCalls (mEvents q)) (take (length news) (mEvents q)) news"
    "final = [] \<or> (\<exists>a b. final = [SendSelectedAccessiblesChanged a b])"
    using drain_shape [of collab w q] by blast
  from d(2) have "deliveries focusCalls \<le> (if mFocusEvent q = None then 0 else 1)"
    by (auto simp: deliveries_def split: option.splits)
  moreover from d(4) have "deliveries (concat news) \<le> length news"
    by (rule deliveries_concat)
  moreover from d(5) have "deliveries final = 0"
    by (auto simp: deliveries_def deliveredEvent_def)
  ultimately show ?thesis
    using d(1,3) by simp
qed

lemma PushEvents_no_focus:
  assumes "PushEvents fuel tree es q = Some (Inr (r, q'))" and "countFocus es = 0"
  shows "mFocusEvent q' = mFocusEvent q"
proof -
  from assms(2) have "\<forall>e \<in> set es. mEventType e \<noteq> EVENT_FOCUS"
    by (auto simp: countFocus_def filter_empty_conv)
  with assms(1) have "grows q q'"
    by (rule PushEvents_grows)
  then show ?thesis by (simp add: grows_def)
qed

lemma PushEvent_never_shrinks:
  assumes "PushEvent fuel tree q e = Some (Inr (r, q'))"
  shows "length (mEvents q) \<le> length (mEvents q')"
proof (cases "mEventType e = EVENT_FOCUS")
  case True
  with assms show ?thesis
    by (cases fuel) auto
next
  case False
  then have "grows q q'"
    using assms by (rule PushEvent_not_focus)
  then show ?thesis by (simp add: grows_def)
qed

lemma andThen_mono:
  assumes "andThen m f = Some y"
    and "\<And>x. m = Some x \<Longrightarrow> m' = Some x"
    and "\<And>r q. m = Some (Inr (r, q)) \<Longrightarrow> f r q = Some y \<Longrightarrow> f' r q = Some y"
  shows "andThen m' f' = Some y"
  using assms by (auto simp: andThen_def split: option.splits sum.splits)

lemma relations_mono:
  assumes "\<And>q e x. push q e = Some x \<Longrightarrow> push' q e = Some x"
  shows "PushNameOrDescriptionChangeToRelations push tree t rel pushed q = Some y
         \<Longrightarrow> PushNameOrDescriptionChangeToRelations push' tree t rel pushed q = Some y"
proof (induction rel arbitrary: pushed q)
  case Nil
  then show ?case by simp
next
  case (Cons a rel)
  from Cons.prems show ?case
    unfolding PushNameOrDescriptionChangeToRelations.simps
    by (rule andThen_mono) (auto intro: assms Cons.IH)
qed

lemma walkName_mono:
  assumes "\<And>q e x. push q e = Some x \<Longrightarrow> push' q e = Some x"
  shows "walkName push tree target maybe pushed nca parent q = Some y
         \<Longrightarrow> walkName push' tree target maybe pushed nca parent q = Some y"
  unfolding walkName_def
  by (erule andThen_mono)
     (auto intro: assms relations_mono [OF assms] elim!: andThen_mono split: if_splits)

lemma walkBody_mono:
  assumes "\<And>q e x. push q e = Some x \<Longrightarrow> push' q e = Some x"
  shows "walkBody push tree target maybe doName doDesc pushed nca parent q = Some y
         \<Longrightarrow> walkBody push' tree target maybe doName doDesc pushed nca parent q = Some y"
  unfolding walkBody_def
  by (erule andThen_mono)
     (auto intro: assms relations_mono [OF assms] walkName_mono [OF assms]
           elim!: andThen_mono split: if_splits)

lemma walk_mono:
  assumes "\<And>q e x. push q e = Some x \<Longrightarrow> push' q e = Some x"
  shows "walk fuel push tree target maybe doName doDesc pushed nca parent q = Some y
         \<Longrightarrow> walk fuel push' tree target maybe doName doDesc pushed nca parent q = Some y"
proof (induction fuel arbitrary: pushed nca parent q)
  case 0
  then show ?case by simp
next
  case (Suc fuel)
  from Suc.prems show ?case
    unfolding walk.simps
    by (rule andThen_mono) (auto intro: walkBody_mono [OF assms] Suc.IH split: if_splits)
qed

lemma PushNameOrDescriptionChange_mono:
  assumes "\<And>q e x. push q e = Some x \<Longrightarrow> push' q e = Some x"
  shows "PushNameOrDescriptionChange fuel push tree t target q = Some y
         \<Longrightarrow> PushNameOrDescriptionChange fuel push' tree t target q = Some y"
  unfolding PushNameOrDescriptionChange_def Let_def
  by (auto intro: walk_mono [OF assms] split: if_splits)

lemma appendAndCoalesce_mono:
  assumes "\<And>q e x. push q e = Some x \<Longrightarrow> push' q e = Some x"
  shows "appendAndCoalesce fuel push tree q aEvent = Some y
         \<Longrightarrow> appendAndCoalesce fuel push' tree q aEvent = Some y"
  unfolding appendAndCoalesce_def
  by (auto intro: PushNameOrDescriptionChange_mono [OF assms] elim!: andThen_mono
           split: sum.splits if_splits)


lemma relations_alone:
  "PushNameOrDescriptionChangeToRelations (\<lambda>q e. None) tree t rel pushed q = Some y
   \<Longrightarrow> y = Inr (pushed, q)"
  by (cases rel) (simp_all add: andThen_def)

lemma walkName_alone:
  "walkName (\<lambda>q e. None) tree target maybe pushed nca parent q = Some y
   \<Longrightarrow> \<exists>pc. y = Inr (pc, q)"
  unfolding walkName_def
  by (auto simp: andThen_def split: if_splits option.splits sum.splits dest!: relations_alone)

lemma walkBody_alone:
  "walkBody (\<lambda>q e. None) tree target maybe doName doDesc pushed nca parent q = Some y
   \<Longrightarrow> \<exists>pc. y = Inr (pc, q)"
  unfolding walkBody_def
  by (auto simp: andThen_def split: if_splits option.splits sum.splits
           dest!: relations_alone walkName_alone)

lemma walk_alone:
  "walk fuel (\<lambda>q e. None) tree target maybe doName doDesc pushed nca parent q = Some y
   \<Longrightarrow> \<exists>b. y = Inr (b, q)"
proof (induction fuel arbitrary: pushed nca parent)
  case 0
  then show ?case by simp
next
  case (Suc fuel)
  from Suc.prems show ?case
    unfolding walk.simps
    by (auto simp: andThen_def split: if_splits option.splits sum.splits
             dest!: walkBody_alone Suc.IH)
qed

lemma PushNameOrDescriptionChange_alone:
  "PushNameOrDescriptionChange fuel (\<lambda>q e. None) tree t target q = Some y
   \<Longrightarrow> \<exists>b. y = Inr (b, q)"
  unfolding PushNameOrDescriptionChange_def Let_def
  by (auto split: if_splits dest!: walk_alone)

lemma appendAndCoalesce_alone:
  assumes "appendAndCoalesce fuel (\<lambda>q e. None) tree q aEvent = Some y"
    and "CoalesceEvents (mEvents q @ [aEvent]) = Inr evs'"
  shows "\<exists>r. y = Inr (r, q\<lparr>mEvents := evs'\<rparr>)"
  using assms unfolding appendAndCoalesce_def
  by (auto simp: andThen_def split: if_splits option.splits sum.splits
           dest!: PushNameOrDescriptionChange_alone)

lemma pushesNoFurther_push:
  assumes "pushesNoFurther fuel tree q e" and "length (mEvents q) + 1 < 2 ^ 32"
  shows "\<exists>r q'. PushEvent (Suc fuel) tree q e = Some (Inr (r, q'))
           \<and> length (mEvents q') + (if mEventType e = EVENT_FOCUS then 1 else 0)
                + (if droppedEarly q e then 1 else 0) = length (mEvents q) + 1"
proof (cases "mEventType e = EVENT_FOCUS")
  case True
  then show ?thesis
    by (auto simp: droppedEarly_def)
next
  case False
  obtain dup where dup: "isDuplicate (mEvents q) e = Inr dup"
    using assms(2) isDuplicate_scan [of "mEvents q" e] by simp
  show ?thesis
  proof (cases dup)
    case True
    with False dup show ?thesis
      by (auto simp: droppedEarly_def)
  next
    case notdup: False
    obtain evs' where co: "CoalesceEvents (mEvents q @ [e]) = Inr evs'"
      "length evs' = length (mEvents q @ [e])"
      using assms(2) CoalesceEvents_length [of "mEvents q @ [e]"] by auto
    from assms(1) False dup notdup obtain y where
      alone: "appendAndCoalesce fuel (\<lambda>q e. None) tree q e = Some y"
      by (auto simp: pushesNoFurther_def)
    then obtain r where y: "y = Inr (r, q\<lparr>mEvents := evs'\<rparr>)"
      using co(1) appendAndCoalesce_alone by blast
    have "appendAndCoalesce fuel (PushEvent fuel tree) tree q e = Some y"
      using alone by (rule appendAndCoalesce_mono [rotated]) simp
    with False dup notdup y co(2) show ?thesis
      by (auto simp: droppedEarly_def)
  qed
qed

lemma noFurtherPushes_run:
  "noFurtherPushes fuel tree es q \<Longrightarrow> length (mEvents q) + length es < 2 ^ 32 \<Longrightarrow>
   \<exists>q'. PushEvents (Suc fuel) tree es q = Some (Inr ((), q'))
     \<and> length (mEvents q') + countFocus es + countDroppedEarly (Suc fuel) tree es q
         = length (mEvents q) + length es"
proof (induction es arbitrary: q)
  case Nil
  then show ?case by (simp add: countFocus_def)
next
  case (Cons e es)
  from Cons.prems have one: "pushesNoFurther fuel tree q e" "length (mEvents q) + 1 < 2 ^ 32"
    by simp_all
  then obtain r q1 where p: "PushEvent (Suc fuel) tree q e = Some (Inr (r, q1))"
    "length (mEvents q1) + (if mEventType e = EVENT_FOCUS then 1 else 0)
       + (if droppedEarly q e then 1 else 0) = length (mEvents q) + 1"
    using pushesNoFurther_push by blast
  from Cons.prems(1) p(1) have rest: "noFurtherPushes fuel tree es q1"
    by (simp del: PushEvent.simps)
  from p(2) Cons.prems(2) have "length (mEvents q1) + length es < 2 ^ 32"
    by (simp split: if_splits)
  with rest obtain q' where r: "PushEvents (Suc fuel) tree es q1 = Some (Inr ((), q'))"
    "length (mEvents q') + countFocus es + countDroppedEarly (Suc fuel) tree es q1
       = length (mEvents q1) + length es"
    using Cons.IH by blast
  from p r show ?case
    by (intro exI [of _ q']) (auto simp: countFocus_def simp del: PushEvent.simps split: if_splits)
qed

text \<open>
  Claim C8, as amended. Take a sequence of N pushes none of which makes the propagation push
  further events, followed by one drain. Every push returns. \<open>CoalesceEvents\<close> never
  changes the length of the sequence, so the length just before the drain is the length before
  the pushes plus N, minus the focus pushes, which go to the focus slot, minus the pushes
  dropped early by the duplicate check. The drain delivers at most as many events as there were
  in the queue before the pushes, plus N: at most N for a fresh queue (the events delivered to
  the generic sink, the text-selection manager or the focus manager; the selected-state
  notifications that go with a selection event are not counted). With or without propagation,
  no push makes the sequence shorter.
\<close>

theorem pushes_and_deliveries:
  assumes "noFurtherPushes fuel tree es q" and "length (mEvents q) + length es < 2 ^ 32"
  shows "\<exists>q'. PushEvents (Suc fuel) tree es q = Some (Inr ((), q'))
       \<and> length (mEvents q') + countFocus es + countDroppedEarly (Suc fuel) tree es q
           = length (mEvents q) + length es
       \<and> deliveries (calls (ProcessEventQueue collab w q'))
           \<le> length (mEvents q) + (if mFocusEvent q = None then 0 else 1) + length es
       \<and> (\<forall>evs evs'. CoalesceEvents evs = Inr evs' \<longrightarrow> length evs' = length evs)
       \<and> (\<forall>n anyTree q0 e r q1. PushEvent n anyTree q0 e = Some (Inr (r, q1))
             \<longrightarrow> length (mEvents q0) \<le> length (mEvents q1))"
proof -
  obtain q' where run: "PushEvents (Suc fuel) tree es q = Some (Inr ((), q'))"
    and len: "length (mEvents q') + countFocus es + countDroppedEarly (Suc fuel) tree es q
                = length (mEvents q) + length es"
    using noFurtherPushes_run [OF assms] by blast
  have drain: "deliveries (calls (ProcessEventQueue collab w q'))
                 \<le> length (mEvents q') + (if mFocusEvent q' = None then 0 else 1)"
    by (rule deliveries_drain)
  have "deliveries (calls (ProcessEventQueue collab w q'))
           \<le> length (mEvents q) + (if mFocusEvent q = None then 0 else 1) + length es"
  proof (cases "countFocus es = 0")
    case True
    with run have "mFocusEvent q' = mFocusEvent q"
      by (rule PushEvents_no_focus)
    with drain len show ?thesis by simp
  next
    case False
    with drain len show ?thesis
      by (auto split: if_splits)
  qed
  with run len show ?thesis
    using CoalesceEvents_same_length PushEvent_never_shrinks by blast
qed

text \<open>
  Claim C8 as stated fails. One push of a focus event, which the duplicate check does not
  drop, leaves the sequence empty: its length is not the number of pushes minus the early
  drops. One push of a selection-add event makes the drain deliver two notifications, the
  selected state of the item and the event. And one push of a text-removed event for a leaf
  below a document whose name comes from its subtree leaves two entries in the sequence, the
  second pushed by the propagation, and the drain delivers both.
\<close>

theorem pushes_and_deliveries_counterexample:
  "PushEvents 1 quietTree oneFocus emptyQueue
     = Some (Inr ((), emptyQueue\<lparr>mFocusEvent := Some (plainEvent EVENT_FOCUS eCoalesceOfSameType 5)\<rparr>))
   \<and> countDroppedEarly 1 quietTree oneFocus emptyQueue = 0
   \<and> length oneFocus = 1
   \<and> length (mEvents (emptyQueue\<lparr>mFocusEvent := Some (plainEvent EVENT_FOCUS eCoalesceOfSameType 5)\<rparr>))
       = 0
   \<and> PushEvents 1 quietTree oneSelectionAdd emptyQueue
       = Some (Inr ((), emptyQueue\<lparr>mEvents := oneSelectionAdd\<rparr>))
   \<and> length oneSelectionAdd = 1
   \<and> calls (ProcessEventQueue quietCollab () (emptyQueue\<lparr>mEvents := oneSelectionAdd\<rparr>))
       = [FireStateChange 1 True False, FireEvent (selChangeEvent 9 1 eSelectionAdd)]
   \<and> PushEvents 4 threeLevelTree oneTextRemoved emptyQueue
       = Some (Inr ((), emptyQueue\<lparr>mEvents := [plainEvent EVENT_TEXT_REMOVED eAllowDupes 1,
                                                NewAccEvent threeLevelTree EVENT_NAME_CHANGE 3]\<rparr>))
   \<and> length oneTextRemoved = 1
   \<and> countDroppedEarly 4 threeLevelTree oneTextRemoved emptyQueue = 0
   \<and> calls (ProcessEventQueue quietCollab ()
              (emptyQueue\<lparr>mEvents := [plainEvent EVENT_TEXT_REMOVED eAllowDupes 1,
                                      NewAccEvent threeLevelTree EVENT_NAME_CHANGE 3]\<rparr>))
       = [FireEvent (plainEvent EVENT_TEXT_REMOVED eAllowDupes 1),
          FireEvent (NewAccEvent threeLevelTree EVENT_NAME_CHANGE 3)]"
  by code_simp

theorem pushes_and_deliveries_witness:
  "noFurtherPushes 0 threeLevelTree fourPushes emptyQueue
   \<and> length (mEvents emptyQueue) + length fourPushes < 2 ^ 32
   \<and> PushEvents 1 threeLevelTree fourPushes emptyQueue
     = Some (Inr ((), \<lparr>mEvents = [plainEvent EVENT_REORDER eRemoveDupes 2,
                                  selChangeEvent 9 1 eSelectionAdd],
                       mFocusEvent = Some (plainEvent EVENT_FOCUS eCoalesceOfSameType 5),
                       mDocument = 1\<rparr>))
   \<and> countFocus fourPushes = 1 \<and> countDroppedEarly 1 threeLevelTree fourPushes emptyQueue = 1
   \<and> length fourPushes = 4
   \<and> deliveries (calls (ProcessEventQueue quietCollab ()
          \<lparr>mEvents = [plainEvent EVENT_REORDER eRemoveDupes 2, selChangeEvent 9 1 eSelectionAdd],
            mFocusEvent = Some (plainEvent EVENT_FOCUS eCoalesceOfSameType 5),
            mDocument = 1\<rparr>)) \<le> 4
   \<and> HasNameDependent labelledLeafTree 1
   \<and> noFurtherPushes 1 labelledLeafTree [plainEvent EVENT_NAME_CHANGE eRemoveDupes 1] emptyQueue
   \<and> PushEvents 2 labelledLeafTree [plainEvent EVENT_NAME_CHANGE eRemoveDupes 1] emptyQueue
     = Some (Inr ((), emptyQueue\<lparr>mEvents := [plainEvent EVENT_NAME_CHANGE eRemoveDupes 1]\<rparr>))"
proof -
  let ?Q = "\<lparr>mEvents = [plainEvent EVENT_REORDER eRemoveDupes 2, selChangeEvent 9 1 eSelectionAdd],
            mFocusEvent = Some (plainEvent EVENT_FOCUS eCoalesceOfSameType 5),
            mDocument = 1\<rparr>"
  let ?n = "[plainEvent EVENT_NAME_CHANGE eRemoveDupes 1]"
  have quiet: "noFurtherPushes 0 threeLevelTree fourPushes emptyQueue"
    by code_simp
  have short: "length (mEvents emptyQueue) + length fourPushes < 2 ^ 32"
    by (simp add: emptyQueue_def fourPushes_def)
  have push: "PushEvents 1 threeLevelTree fourPushes emptyQueue = Some (Inr ((), ?Q))"
    by code_simp
  have counts: "countFocus fourPushes = 1" "countDroppedEarly 1 threeLevelTree fourPushes emptyQueue = 1"
    "length fourPushes = 4"
    by code_simp+
  have fresh: "mEvents emptyQueue = []" "mFocusEvent emptyQueue = None"
    by (simp_all add: emptyQueue_def)
  from pushes_and_deliveries [OF quiet short, of quietCollab "()"] push counts fresh
  have bound: "deliveries (calls (ProcessEventQueue quietCollab () ?Q)) \<le> 4"
    by auto
  have leaf: "HasNameDependent labelledLeafTree 1"
    by (simp add: labelledLeafTree_def)
  have quiet2: "noFurtherPushes 1 labelledLeafTree ?n emptyQueue"
    by code_simp
  have short2: "length (mEvents emptyQueue) + length ?n < 2 ^ 32"
    by (simp add: emptyQueue_def)
  have "countFocus ?n = 0" "countDroppedEarly 2 labelledLeafTree ?n emptyQueue = 0"
    by code_simp+
  with pushes_and_deliveries [OF quiet2 short2, of quietCollab "()"] fresh
  obtain q' where q': "PushEvents 2 labelledLeafTree ?n emptyQueue = Some (Inr ((), q'))"
    "length (mEvents q') = 1"
    by (auto simp: numeral_2_eq_2)
  have "PushEvents 2 labelledLeafTree ?n emptyQueue
          = Some (Inr ((), emptyQueue\<lparr>mEvents := ?n\<rparr>))"
    by code_simp
  with quiet short push counts bound leaf quiet2 show ?thesis
    by simp
qed

section \<open>A burst of selection changes\<close>





















end
